theory Spec2Isabelle
  imports Main
begin

section \<open>The service worker of scan-api-pwa.js\<close>

text \<open>
  The file \<^verbatim>\<open>src/scan-api-pwa.js\<close> holds a service worker (install, activate, fetch and
  sync listeners and \<^verbatim>\<open>syncScans\<close>) and the widget class \<^verbatim>\<open>PWACardScanner\<close>. The worker's
  handlers are modelled as functions from the state they read (the origin's cache storage,
  the pending-scan database) and the answers of the environment (network, storage) to the
  state they leave and the effects they issue.
\<close>

subsection \<open>Constants\<close>

definition CACHE_NAME :: string where
  "CACHE_NAME = ''mobicard-scanner-v1''"

definition ASSETS_TO_CACHE :: "string list" where
  "ASSETS_TO_CACHE =
    [''/'',
     ''/index.html'',
     ''/styles.css'',
     ''/mobicard-scanner.js'',
     ''https://code.jquery.com/jquery-3.7.1.min.js'',
     ''https://cdn.jsdelivr.net/npm/bootstrap@4.6.2/dist/css/bootstrap.min.css'',
     ''https://cdn.jsdelivr.net/npm/bootstrap@4.6.2/dist/js/bootstrap.bundle.min.js'']"

subsection \<open>Requests, responses and the cache storage\<close>

text \<open>
  A request has a method and a URL, the string the code reads as \<^verbatim>\<open>request.url\<close> (query and
  fragment included). A response carries its status and an opaque payload.
\<close>

record request =
  url :: string
  http_method :: string

record response =
  status :: nat
  payload :: string

text \<open>\<^verbatim>\<open>response.ok\<close>: the status is in the range 200 to 299.\<close>

definition ok :: "response \<Rightarrow> bool" where
  "ok r = (200 \<le> status r \<and> status r \<le> 299)"

text \<open>\<^verbatim>\<open>response.clone()\<close>: a second response with the same status and payload.\<close>

definition clone :: "response \<Rightarrow> response" where
  "clone r = \<lparr>status = status r, payload = payload r\<rparr>"

text \<open>What \<^verbatim>\<open>fetch\<close> settles to: a rejection (network error) or a response.\<close>

datatype net_result = NetworkError | Responded response

text \<open>
  A cache is an ordered list of request/response pairs, the cache storage an ordered list
  of named caches (the generations), in creation order.
\<close>

type_synonym cache = "(request \<times> response) list"
type_synonym cache_storage = "(string \<times> cache) list"

text \<open>
  The platform's cache compares two requests by method and by URL without its fragment
  (the part from the first \<^verbatim>\<open>#\<close> on); the query counts. Responses carry no headers here, so
  the platform's further filter on the \<^verbatim>\<open>Vary\<close> header of a stored response, which can only
  turn a match into a miss, is not part of the model.
\<close>

definition strip_fragment :: "string \<Rightarrow> string" where
  "strip_fragment u = takeWhile (\<lambda>c. c \<noteq> CHR ''#'') u"

definition resource_key :: "request \<Rightarrow> string \<times> string" where
  "resource_key q = (http_method q, strip_fragment (url q))"

text \<open>
  \<^verbatim>\<open>cache.match(request)\<close>: the response of the first stored request with the same method and
  the same URL up to the fragment, if any.
\<close>

definition cache_match :: "cache \<Rightarrow> request \<Rightarrow> response option" where
  "cache_match c q = map_of (map (\<lambda>e. (resource_key (fst e), snd e)) c) (resource_key q)"

text \<open>
  \<^verbatim>\<open>cache.put(request, response)\<close>: the entries the request matches are deleted, the new
  pair is appended.
\<close>

definition cache_put :: "cache \<Rightarrow> request \<Rightarrow> response \<Rightarrow> cache" where
  "cache_put c q r = filter (\<lambda>e. resource_key (fst e) \<noteq> resource_key q) c @ [(q, r)]"

text \<open>\<^verbatim>\<open>caches.keys()\<close>: the names of the generations that exist.\<close>

definition caches_keys :: "cache_storage \<Rightarrow> string list" where
  "caches_keys s = map fst s"

text \<open>\<^verbatim>\<open>caches.open(name)\<close>: the cache of that name, created empty when there is none.\<close>

definition caches_open :: "string \<Rightarrow> cache_storage \<Rightarrow> cache_storage" where
  "caches_open n s = (if n \<in> set (caches_keys s) then s else s @ [(n, [])])"

text \<open>\<^verbatim>\<open>caches.delete(name)\<close>.\<close>

definition caches_delete :: "string \<Rightarrow> cache_storage \<Rightarrow> cache_storage" where
  "caches_delete n s = filter (\<lambda>g. fst g \<noteq> n) s"

text \<open>
  \<^verbatim>\<open>caches.match(request)\<close> on the storage: the first match over all caches, in creation
  order.
\<close>

fun caches_match :: "cache_storage \<Rightarrow> request \<Rightarrow> response option" where
  "caches_match [] q = None"
| "caches_match (g # s) q =
     (case cache_match (snd g) q of
        Some r \<Rightarrow> Some r
      | None \<Rightarrow> caches_match s q)"

text \<open>The content of the generation of a given name (empty when it does not exist).\<close>

definition generation :: "string \<Rightarrow> cache_storage \<Rightarrow> cache" where
  "generation n s = (case map_of s n of None \<Rightarrow> [] | Some c \<Rightarrow> c)"

text \<open>A write to the cache of a given name: \<^verbatim>\<open>cache.put\<close> on the cache \<^verbatim>\<open>caches.open\<close> gave.\<close>

definition generation_put :: "string \<Rightarrow> request \<Rightarrow> response \<Rightarrow> cache_storage \<Rightarrow> cache_storage" where
  "generation_put n q r s = map (\<lambda>g. if fst g = n then (fst g, cache_put (snd g) q r) else g) s"

text \<open>\<^verbatim>\<open>String.prototype.includes\<close>: the second string occurs in the first.\<close>

fun str_includes :: "string \<Rightarrow> string \<Rightarrow> bool" where
  "str_includes [] sub = (sub = [])"
| "str_includes (c # cs) sub = (take (length sub) (c # cs) = sub \<or> str_includes cs sub)"

subsection \<open>The environment of the worker\<close>

text \<open>
  What the handlers cannot decide: the answer of the network to a request, and whether the
  platform accepts a write to a cache (it refuses some requests and responses, and writes
  can fail).
\<close>

record platform =
  network :: "request \<Rightarrow> net_result"
  put_accepted :: "request \<Rightarrow> response \<Rightarrow> bool"

subsection \<open>The fetch listener (lines 38 to 65)\<close>

text \<open>
  The outcome of one intercepted request: what \<^verbatim>\<open>event.respondWith\<close> settles to, the cache
  storage once the write the handler issued has been done, and the requests sent to the
  network.
\<close>

record fetch_outcome =
  answer :: net_result
  storage_after :: cache_storage
  network_log :: "request list"

definition fetch_handler :: "platform \<Rightarrow> cache_storage \<Rightarrow> request \<Rightarrow> fetch_outcome" where
  "fetch_handler env s q =
    (case caches_match s q of
       Some r \<Rightarrow> \<lparr>answer = Responded r, storage_after = s, network_log = []\<rparr>
     | None \<Rightarrow>
        (case network env q of
           NetworkError \<Rightarrow> \<lparr>answer = NetworkError, storage_after = s, network_log = [q]\<rparr>
         | Responded r \<Rightarrow>
             if str_includes (url q) ''/api/'' then
               \<lparr>answer = Responded r, storage_after = s, network_log = [q]\<rparr>
             else if status r = 200 then
               \<lparr>answer = Responded r,
                storage_after =
                  (if put_accepted env q (clone r)
                   then generation_put CACHE_NAME q (clone r) (caches_open CACHE_NAME s)
                   else caches_open CACHE_NAME s),
                network_log = [q]\<rparr>
             else \<lparr>answer = Responded r, storage_after = s, network_log = [q]\<rparr>))"

subsection \<open>The install listener (lines 14 to 20)\<close>

text \<open>
  \<^verbatim>\<open>cache.addAll(urls)\<close> fetches every URL with a GET request and writes all the responses or
  none: it rejects when a fetch fails, when a response is not ok or is partial (206), or
  when a write is refused.
\<close>

definition asset_request :: "string \<Rightarrow> request" where
  "asset_request u = \<lparr>url = u, http_method = ''GET''\<rparr>"

fun fetch_assets :: "platform \<Rightarrow> request list \<Rightarrow> (request \<times> response) list option" where
  "fetch_assets env [] = Some []"
| "fetch_assets env (q # qs) =
     (case network env q of
        NetworkError \<Rightarrow> None
      | Responded r \<Rightarrow>
          if ok r \<and> status r \<noteq> 206 \<and> put_accepted env q r then
            (case fetch_assets env qs of
               None \<Rightarrow> None
             | Some rs \<Rightarrow> Some ((q, r) # rs))
          else None)"

fun put_all :: "string \<Rightarrow> (request \<times> response) list \<Rightarrow> cache_storage \<Rightarrow> cache_storage" where
  "put_all n [] s = s"
| "put_all n (e # es) s = put_all n es (generation_put n (fst e) (snd e) s)"

text \<open>
  The install step: \<^verbatim>\<open>Installed\<close> when the promise given to \<^verbatim>\<open>waitUntil\<close> resolves (then
  \<^verbatim>\<open>skipWaiting\<close> has been called), \<^verbatim>\<open>InstallFailed\<close> when it rejects: the worker is then
  discarded and never activated.
\<close>

datatype install_result = Installed | InstallFailed

record install_outcome =
  installed :: install_result
  storage_installed :: cache_storage
  skip_waiting_called :: bool

definition install :: "platform \<Rightarrow> cache_storage \<Rightarrow> install_outcome" where
  "install env s =
    (let s1 = caches_open CACHE_NAME s in
     case fetch_assets env (map asset_request ASSETS_TO_CACHE) of
       None \<Rightarrow> \<lparr>installed = InstallFailed, storage_installed = s1, skip_waiting_called = False\<rparr>
     | Some rs \<Rightarrow>
         \<lparr>installed = Installed, storage_installed = put_all CACHE_NAME rs s1,
          skip_waiting_called = True\<rparr>)"

subsection \<open>The activate listener (lines 23 to 35)\<close>

text \<open>
  The effects of activation, in the order they complete: the deletions of
  \<^verbatim>\<open>Promise.all\<close>, then \<^verbatim>\<open>clients.claim()\<close>.
\<close>

datatype activate_effect = CacheDeleted string | ClientsClaimed

fun delete_stale :: "string list \<Rightarrow> cache_storage \<Rightarrow> cache_storage" where
  "delete_stale [] s = s"
| "delete_stale (cacheName # cacheNames) s =
     delete_stale cacheNames
       (if cacheName \<noteq> CACHE_NAME then caches_delete cacheName s else s)"

record activate_outcome =
  storage_activated :: cache_storage
  effects :: "activate_effect list"

definition activate :: "cache_storage \<Rightarrow> activate_outcome" where
  "activate s =
    \<lparr>storage_activated = delete_stale (caches_keys s) s,
     effects = map CacheDeleted (filter (\<lambda>cacheName. cacheName \<noteq> CACHE_NAME) (caches_keys s))
               @ [ClientsClaimed]\<rparr>"

subsection \<open>The life of the worker\<close>

text \<open>One fetch per environment of the list, each on the storage the one before left.\<close>

fun fetch_each :: "platform list \<Rightarrow> cache_storage \<Rightarrow> request \<Rightarrow> fetch_outcome list" where
  "fetch_each [] s q = []"
| "fetch_each (env # envs) s q =
     fetch_handler env s q # fetch_each envs (storage_after (fetch_handler env s q)) q"

text \<open>Whether \<^verbatim>\<open>addAll\<close> gets an asset: fetched, ok, not partial, and accepted by the cache.\<close>

definition asset_ok :: "platform \<Rightarrow> string \<Rightarrow> bool" where
  "asset_ok env u =
    (case network env (asset_request u) of
       NetworkError \<Rightarrow> False
     | Responded r \<Rightarrow> ok r \<and> status r \<noteq> 206 \<and> put_accepted env (asset_request u) r)"

text \<open>No stored request of any generation has a URL that contains \<^verbatim>\<open>/api/\<close>.\<close>

definition api_free :: "cache_storage \<Rightarrow> bool" where
  "api_free s = list_all (\<lambda>g. list_all (\<lambda>e. \<not> str_includes (url (fst e)) ''/api/'') (snd g)) s"

text \<open>
  The cache storages in which the fetch listener of this worker runs. A worker receives
  fetch events only once it is active: its install step has succeeded (on a storage in
  which its generation did not exist yet, whatever older generations there were) and its
  activate step has run. From then on the storage changes by the listener's own writes,
  by a later install and activation of the same worker, and by the deletion of a
  generation (a purge).
\<close>

inductive_set serving :: "cache_storage set" where
  activated:
    "CACHE_NAME \<notin> set (caches_keys s0) \<Longrightarrow> installed (install env s0) = Installed \<Longrightarrow>
     storage_activated (activate (storage_installed (install env s0))) \<in> serving"
| served:
    "s \<in> serving \<Longrightarrow> storage_after (fetch_handler env s q) \<in> serving"
| reactivated:
    "s \<in> serving \<Longrightarrow> installed (install env s) = Installed \<Longrightarrow>
     storage_activated (activate (storage_installed (install env s))) \<in> serving"
| purged:
    "s \<in> serving \<Longrightarrow> caches_delete n s \<in> serving"

text \<open>At most one generation exists, and it is the worker's own.\<close>

definition single_generation :: "cache_storage \<Rightarrow> bool" where
  "single_generation s = (caches_keys s = [] \<or> caches_keys s = [CACHE_NAME])"

text \<open>The generations created before the current one.\<close>

definition older_generations :: "cache_storage \<Rightarrow> cache_storage" where
  "older_generations s = takeWhile (\<lambda>g. fst g \<noteq> CACHE_NAME) s"

subsection \<open>Example environments and storages\<close>

text \<open>A network that answers every request with status 200 and the URL as payload.\<close>

definition always_200 :: platform where
  "always_200 =
    \<lparr>network = (\<lambda>q. Responded \<lparr>status = 200, payload = url q\<rparr>), put_accepted = (\<lambda>q r. True)\<rparr>"

text \<open>A network that answers every request with status 404.\<close>

definition always_404 :: platform where
  "always_404 =
    \<lparr>network = (\<lambda>q. Responded \<lparr>status = 404, payload = []\<rparr>), put_accepted = (\<lambda>q r. True)\<rparr>"

text \<open>No network at all.\<close>

definition offline :: platform where
  "offline = \<lparr>network = (\<lambda>q. NetworkError), put_accepted = (\<lambda>q r. True)\<rparr>"

text \<open>A network on which only the style sheet is missing.\<close>

definition styles_missing :: platform where
  "styles_missing =
    \<lparr>network = (\<lambda>q. if url q = ''/styles.css'' then Responded \<lparr>status = 404, payload = []\<rparr>
                      else Responded \<lparr>status = 200, payload = url q\<rparr>),
     put_accepted = (\<lambda>q r. True)\<rparr>"

text \<open>The storage after a first install and activation on the network \<open>always_200\<close>.\<close>

definition example_storage :: cache_storage where
  "example_storage = storage_activated (activate (storage_installed (install always_200 [])))"

text \<open>A storage with a cache of another script, holding a response for an API URL.\<close>

definition foreign_storage :: cache_storage where
  "foreign_storage =
    [(''other-cache'',
      [(\<lparr>url = ''/api/v1/keys'', http_method = ''GET''\<rparr>, \<lparr>status = 200, payload = ''keys''\<rparr>)])]"

text \<open>
  The same storage once a later version of the worker has created a generation of its own,
  with another response for the style sheet.
\<close>

definition storage_with_newer :: cache_storage where
  "storage_with_newer =
    example_storage @
      [(''mobicard-scanner-v2'', [(asset_request ''/styles.css'', \<lparr>status = 200, payload = ''v2''\<rparr>)])]"

section \<open>The pending-scan queue\<close>

subsection \<open>JavaScript values and objects\<close>

text \<open>
  The values the queue code passes through without looking into them, and objects as lists
  of properties. Reading a property an object does not have gives \<^verbatim>\<open>undefined\<close>.
\<close>

datatype js_value = Undefined | Str string | Num int | HeaderMap "(string \<times> string) list"

type_synonym js_object = "(string \<times> js_value) list"

definition js_get :: "js_object \<Rightarrow> string \<Rightarrow> js_value" where
  "js_get obj k = (case map_of obj k of None \<Rightarrow> Undefined | Some v \<Rightarrow> v)"

subsection \<open>The Persistent Queue Store\<close>

text \<open>
  Modelled from the spec: the database object that \<^verbatim>\<open>openScansDatabase()\<close> and
  \<^verbatim>\<open>this.openDatabase()\<close> return is not in the source file (neither function is
  defined there); only its callers \<^verbatim>\<open>syncScans\<close> and \<^verbatim>\<open>saveForOffline\<close> are. Its operations
  follow section 4.3 of the spec: \<^verbatim>\<open>add(entry)\<close> assigns a unique id and appends,
  \<^verbatim>\<open>getAll(status)\<close> returns the ordered sequence of the entries of a partition,
  \<^verbatim>\<open>delete(id)\<close> removes by id and is a no-op for an id that is not there. The first
  argument of each call in the source (\<^verbatim>\<open>'pending'\<close>) names the partition.
\<close>

record scan_db =
  partitions :: "string \<Rightarrow> js_object list"
  next_id :: int

definition db_add :: "string \<Rightarrow> js_object \<Rightarrow> scan_db \<Rightarrow> scan_db" where
  "db_add p entry db =
    \<lparr>partitions = (partitions db)(p := partitions db p @ [(''id'', Num (next_id db)) # entry]),
     next_id = next_id db + 1\<rparr>"

definition db_getAll :: "string \<Rightarrow> scan_db \<Rightarrow> js_object list" where
  "db_getAll p db = partitions db p"

definition db_delete :: "string \<Rightarrow> js_value \<Rightarrow> scan_db \<Rightarrow> scan_db" where
  "db_delete p i db =
    db\<lparr>partitions := (partitions db)(p := filter (\<lambda>e. js_get e ''id'' \<noteq> i) (partitions db p))\<rparr>"

text \<open>The ids of the pending entries, and the store's promise that they are unique.\<close>

definition pending_ids :: "scan_db \<Rightarrow> js_value list" where
  "pending_ids db = map (\<lambda>e. js_get e ''id'') (db_getAll ''pending'' db)"

definition unique_ids :: "scan_db \<Rightarrow> bool" where
  "unique_ids db =
    (distinct (pending_ids db) \<and>
     list_all (\<lambda>i. case i of Num n \<Rightarrow> n < next_id db | _ \<Rightarrow> False) (pending_ids db))"

subsection \<open>The drain: \<^verbatim>\<open>syncScans\<close> (lines 74 to 93)\<close>

text \<open>The arguments of the \<^verbatim>\<open>fetch\<close> call of the loop body.\<close>

record fetch_call =
  resource :: js_value
  init_method :: string
  init_headers :: js_value
  init_body :: js_value

text \<open>
  The environment of one drain: the answer of the network to the request of the \<open>k\<close>-th
  iteration, and whether the delete issued in the \<open>k\<close>-th iteration fails.
\<close>

record sync_env =
  replay_network :: "nat \<Rightarrow> fetch_call \<Rightarrow> net_result"
  delete_rejects :: "nat \<Rightarrow> bool"

text \<open>
  What a drain does, in order: the fetch for an entry with what it settled to, the call
  of \<^verbatim>\<open>db.delete\<close> with its argument, and the \<^verbatim>\<open>console.error\<close> of the catch block.
\<close>

datatype sync_event =
    Fetched js_object fetch_call net_result
  | DeleteCalled js_value
  | SyncFailedLogged

record drain_state =
  queue :: scan_db
  trace :: "sync_event list"

definition scan_call :: "js_object \<Rightarrow> fetch_call" where
  "scan_call scan =
    \<lparr>resource = js_get scan ''url'', init_method = ''POST'',
     init_headers = js_get scan ''headers'', init_body = js_get scan ''body''\<rparr>"

text \<open>The body of the loop, for the entry \<open>scan\<close> in iteration \<open>k\<close>.\<close>

definition replay_scan :: "sync_env \<Rightarrow> nat \<Rightarrow> js_object \<Rightarrow> drain_state \<Rightarrow> drain_state" where
  "replay_scan env k scan st =
    (case replay_network env k (scan_call scan) of
       NetworkError \<Rightarrow>
         st\<lparr>trace := trace st @ [Fetched scan (scan_call scan) NetworkError, SyncFailedLogged]\<rparr>
     | Responded r \<Rightarrow>
         if ok r then
           (if delete_rejects env k then
              st\<lparr>trace := trace st @ [Fetched scan (scan_call scan) (Responded r),
                                      DeleteCalled (js_get scan ''id''), SyncFailedLogged]\<rparr>
            else
              \<lparr>queue = db_delete ''pending'' (js_get scan ''id'') (queue st),
               trace = trace st @ [Fetched scan (scan_call scan) (Responded r),
                                   DeleteCalled (js_get scan ''id'')]\<rparr>)
         else st\<lparr>trace := trace st @ [Fetched scan (scan_call scan) (Responded r)]\<rparr>)"

fun drain :: "sync_env \<Rightarrow> nat \<Rightarrow> js_object list \<Rightarrow> drain_state \<Rightarrow> drain_state" where
  "drain env k [] st = st"
| "drain env k (scan # pendingScans) st = drain env (Suc k) pendingScans (replay_scan env k scan st)"

definition syncScans :: "sync_env \<Rightarrow> scan_db \<Rightarrow> drain_state" where
  "syncScans env db = drain env 0 (db_getAll ''pending'' db) \<lparr>queue = db, trace = []\<rparr>"

text \<open>The sync listener (lines 68 to 72): only the tag \<^verbatim>\<open>sync-scans\<close> starts a drain.\<close>

definition sync_listener :: "sync_env \<Rightarrow> string \<Rightarrow> scan_db \<Rightarrow> drain_state" where
  "sync_listener env tag db =
    (if tag = ''sync-scans'' then syncScans env db else \<lparr>queue = db, trace = []\<rparr>)"

text \<open>The state of the loop after its first \<open>n\<close> iterations.\<close>

definition drain_after :: "sync_env \<Rightarrow> scan_db \<Rightarrow> nat \<Rightarrow> drain_state" where
  "drain_after env db n = drain env 0 (take n (db_getAll ''pending'' db)) \<lparr>queue = db, trace = []\<rparr>"

text \<open>The entries a trace has a fetch for, in order, and the calls sent for them.\<close>

fun attempted :: "sync_event list \<Rightarrow> js_object list" where
  "attempted [] = []"
| "attempted (Fetched scan call res # t) = scan # attempted t"
| "attempted (e # t) = attempted t"

fun calls :: "sync_event list \<Rightarrow> fetch_call list" where
  "calls [] = []"
| "calls (Fetched scan call res # t) = call # calls t"
| "calls (e # t) = calls t"

text \<open>
  Whether the fetch of iteration \<open>k\<close> gets an ok response, and whether the iteration
  removes its entry: the response is ok and the delete does not fail.
\<close>

definition acknowledged :: "sync_env \<Rightarrow> nat \<Rightarrow> js_object \<Rightarrow> bool" where
  "acknowledged env k scan =
    (case replay_network env k (scan_call scan) of
       NetworkError \<Rightarrow> False
     | Responded r \<Rightarrow> ok r)"

definition removed :: "sync_env \<Rightarrow> nat \<Rightarrow> js_object \<Rightarrow> bool" where
  "removed env k scan = (acknowledged env k scan \<and> \<not> delete_rejects env k)"

subsection \<open>The widget: \<^verbatim>\<open>saveForOffline\<close> and \<^verbatim>\<open>handleNetworkChange\<close>\<close>

text \<open>
  The fields of the widget the two methods use: \<^verbatim>\<open>syncRegistration\<close> is set only once the
  service worker is ready and background sync is supported.
\<close>

record widget =
  networkStatus :: string
  syncRegistration :: bool

record save_outcome =
  returned :: bool
  db_after :: scan_db
  sync_registered :: "string list"

text \<open>
  \<^verbatim>\<open>saveForOffline(scanData)\<close> (lines 268 to 286), with \<^verbatim>\<open>navigator.onLine\<close> and
  \<^verbatim>\<open>Date.now()\<close> as arguments.
\<close>

definition saveForOffline :: "widget \<Rightarrow> bool \<Rightarrow> int \<Rightarrow> js_object \<Rightarrow> scan_db \<Rightarrow> save_outcome" where
  "saveForOffline w onLine now scanData db =
    (if \<not> onLine then
       \<lparr>returned = True,
        db_after = db_add ''pending''
          [(''url'', js_get scanData ''url''),
           (''headers'', js_get scanData ''headers''),
           (''body'', js_get scanData ''body''),
           (''timestamp'', Num now)] db,
        sync_registered = (if syncRegistration w then [''sync-scans''] else [])\<rparr>
     else \<lparr>returned = False, db_after = db, sync_registered = []\<rparr>)"

text \<open>\<^verbatim>\<open>handleNetworkChange(status)\<close> (lines 233 to 242): the new widget and the tags registered.\<close>

definition handleNetworkChange :: "widget \<Rightarrow> string \<Rightarrow> widget \<times> string list" where
  "handleNetworkChange w st =
    (w\<lparr>networkStatus := st\<rparr>,
     if st = ''online'' \<and> syncRegistration w then [''sync-scans''] else [])"

subsection \<open>Reading a drain\<close>

text \<open>The events of iteration \<open>k\<close> for the entry \<open>scan\<close>, as the loop body appends them.\<close>

definition scan_events :: "sync_env \<Rightarrow> nat \<Rightarrow> js_object \<Rightarrow> sync_event list" where
  "scan_events env k scan =
    trace (replay_scan env k scan \<lparr>queue = \<lparr>partitions = (\<lambda>p. []), next_id = 0\<rparr>, trace = []\<rparr>)"

text \<open>The entries of a list of pending entries that a drain starting at iteration \<open>k\<close> leaves.\<close>

definition kept :: "sync_env \<Rightarrow> nat \<Rightarrow> js_object list \<Rightarrow> js_object list" where
  "kept env k scans = map snd (filter (\<lambda>(i, scan). \<not> removed env i scan) (enumerate k scans))"

text \<open>An event is a fetch that got an ok response, made for an entry whose id is \<open>x\<close>.\<close>

definition acks_id :: "sync_event \<Rightarrow> js_value \<Rightarrow> bool" where
  "acks_id e x =
    (case e of
       Fetched scan call (Responded r) \<Rightarrow> call = scan_call scan \<and> ok r \<and> js_get scan ''id'' = x
     | _ \<Rightarrow> False)"

text \<open>
  Every call of \<^verbatim>\<open>db.delete\<close> in a trace comes right after a fetch that got an ok response,
  made for an entry whose id is the argument of the call.
\<close>

definition deletes_follow_acks :: "sync_event list \<Rightarrow> bool" where
  "deletes_follow_acks t =
    list_all
      (\<lambda>i. case t ! i of DeleteCalled x \<Rightarrow> 0 < i \<and> acks_id (t ! (i - 1)) x | _ \<Rightarrow> True)
      [0..<length t]"

text \<open>
  The shape of the records \<^verbatim>\<open>saveForOffline\<close> persists: the id the store assigns, then the
  four fields of the object literal, with integers as id and timestamp.
\<close>

definition is_num :: "js_value \<Rightarrow> bool" where
  "is_num v = (case v of Num n \<Rightarrow> True | _ \<Rightarrow> False)"

definition pending_shape :: "js_object \<Rightarrow> bool" where
  "pending_shape e =
    (map fst e = [''id'', ''url'', ''headers'', ''body'', ''timestamp''] \<and>
     is_num (js_get e ''id'') \<and> is_num (js_get e ''timestamp''))"

subsection \<open>Example queues and environments\<close>

definition entry1 :: js_object where
  "entry1 = [(''id'', Num 1), (''url'', Str ''/api/v1/scan''), (''headers'', HeaderMap []),
             (''body'', Str ''card-1''), (''timestamp'', Num 1000)]"

definition entry2 :: js_object where
  "entry2 = [(''id'', Num 2), (''url'', Str ''/api/v1/scan''), (''headers'', HeaderMap []),
             (''body'', Str ''card-2''), (''timestamp'', Num 2000)]"

definition entry3 :: js_object where
  "entry3 = [(''id'', Num 3), (''url'', Str ''/api/v1/scan''), (''headers'', HeaderMap []),
             (''body'', Str ''card-3''), (''timestamp'', Num 3000)]"

definition three_pending :: scan_db where
  "three_pending =
    \<lparr>partitions = (\<lambda>p. if p = ''pending'' then [entry1, entry2, entry3] else []), next_id = 4\<rparr>"

text \<open>The first request of a drain gets status 500, every later one status 200.\<close>

definition first_fails :: sync_env where
  "first_fails =
    \<lparr>replay_network = (\<lambda>k call. Responded \<lparr>status = (if k = 0 then 500 else 200), payload = []\<rparr>),
     delete_rejects = (\<lambda>k. False)\<rparr>"

text \<open>Every request gets status 200, and the first delete of a drain fails.\<close>

definition first_delete_fails :: sync_env where
  "first_delete_fails =
    \<lparr>replay_network = (\<lambda>k call. Responded \<lparr>status = 200, payload = []\<rparr>),
     delete_rejects = (\<lambda>k. k = 0)\<rparr>"

text \<open>An entry that carries a method of its own, alone in the queue.\<close>

definition put_entry :: js_object where
  "put_entry = [(''id'', Num 1), (''url'', Str ''/api/v1/scan''), (''method'', Str ''PUT''),
                (''headers'', HeaderMap []), (''body'', Str ''card''), (''timestamp'', Num 1000)]"

definition put_pending :: scan_db where
  "put_pending = \<lparr>partitions = (\<lambda>p. if p = ''pending'' then [put_entry] else []), next_id = 2\<rparr>"

text \<open>An empty database, the scan data of a submission, and two widgets.\<close>

definition empty_db :: scan_db where
  "empty_db = \<lparr>partitions = (\<lambda>p. []), next_id = 1\<rparr>"

definition scan_data :: js_object where
  "scan_data = [(''url'', Str ''/api/v1/scan''), (''method'', Str ''PUT''),
                (''headers'', HeaderMap [(''Authorization'', ''Bearer t'')]), (''body'', Str ''card'')]"

definition widget_with_sync :: widget where
  "widget_with_sync = \<lparr>networkStatus = ''offline'', syncRegistration = True\<rparr>"

definition widget_without_sync :: widget where
  "widget_without_sync = \<lparr>networkStatus = ''offline'', syncRegistration = False\<rparr>"

section \<open>Properties of the cache storage\<close>

lemma caches_keys_delete: "caches_keys (caches_delete n s) = filter (\<lambda>k. k \<noteq> n) (caches_keys s)"
  by (induction s) (auto simp: caches_keys_def caches_delete_def)

lemma manifest_api_free: "list_all (\<lambda>u. \<not> str_includes u ''/api/'') ASSETS_TO_CACHE"
  by (simp add: ASSETS_TO_CACHE_def)

lemma caches_keys_open: "caches_keys (caches_open n s) = (if n \<in> set (caches_keys s) then caches_keys s else caches_keys s @ [n])"
  by (simp add: caches_open_def caches_keys_def)

lemma caches_keys_generation_put: "caches_keys (generation_put n q r s) = caches_keys s"
  by (induction s) (auto simp: generation_put_def caches_keys_def)

lemma caches_keys_put_all: "caches_keys (put_all n es s) = caches_keys s"
  by (induction es arbitrary: s) (auto simp: caches_keys_generation_put)

lemma delete_stale_filter:
  "delete_stale ks s = filter (\<lambda>g. fst g = CACHE_NAME \<or> fst g \<notin> set ks) s"
proof (induction ks arbitrary: s)
  case Nil
  show ?case by simp
next
  case (Cons k ks)
  show ?case
    by (auto simp: Cons.IH caches_delete_def intro: filter_cong)
qed

lemma activate_storage: "storage_activated (activate s) = filter (\<lambda>g. fst g = CACHE_NAME) s"
proof -
  have "filter (\<lambda>g. fst g = CACHE_NAME \<or> fst g \<notin> set (caches_keys s)) s = filter (\<lambda>g. fst g = CACHE_NAME) s"
    by (rule filter_cong) (auto simp: caches_keys_def)
  then show ?thesis by (simp add: activate_def delete_stale_filter)
qed

lemma cache_match_put_same: "cache_match (cache_put c q r) q = Some r"
  by (induction c) (auto simp: cache_match_def cache_put_def)

lemma cache_match_put_other:
  "resource_key q' \<noteq> resource_key q \<Longrightarrow> cache_match (cache_put c q r) q' = cache_match c q'"
  by (induction c) (auto simp: cache_match_def cache_put_def)

lemma generation_generation_put:
  "generation n (generation_put n q r s) = (if n \<in> set (caches_keys s) then cache_put (generation n s) q r else [])"
  by (induction s) (auto simp: generation_def generation_put_def caches_keys_def)

lemma generation_open: "generation n (caches_open n s) = generation n s"
  by (auto simp: generation_def caches_open_def caches_keys_def map_of_eq_None_iff[THEN iffD2] split: option.splits)


lemma api_free_Nil: "api_free []"
  by (simp add: api_free_def)

lemma api_free_filter: "api_free s \<Longrightarrow> api_free (filter P s)"
  by (induction s) (auto simp: api_free_def)

lemma api_free_open: "api_free s \<Longrightarrow> api_free (caches_open n s)"
  by (auto simp: api_free_def caches_open_def)

lemma api_free_generation_put:
  "api_free s \<Longrightarrow> \<not> str_includes (url q) ''/api/'' \<Longrightarrow> api_free (generation_put n q r s)"
  by (induction s) (auto simp: api_free_def generation_put_def cache_put_def list_all_iff)

lemma api_free_put_all:
  "api_free s \<Longrightarrow> list_all (\<lambda>e. \<not> str_includes (url (fst e)) ''/api/'') es \<Longrightarrow> api_free (put_all n es s)"
  by (induction es arbitrary: s) (auto simp: api_free_generation_put)

lemma fetch_assets_keys: "fetch_assets env qs = Some rs \<Longrightarrow> map fst rs = qs"
  by (induction qs arbitrary: rs) (auto split: net_result.splits if_splits option.splits)

lemma fetch_assets_answers:
  "fetch_assets env qs = Some rs \<Longrightarrow> (q, r) \<in> set rs \<Longrightarrow> network env q = Responded r"
  by (induction qs arbitrary: rs) (auto split: net_result.splits if_splits option.splits)

lemma manifest_requests_api_free:
  "list_all (\<lambda>q. \<not> str_includes (url q) ''/api/'') (map asset_request ASSETS_TO_CACHE)"
  using manifest_api_free by (simp add: list_all_iff asset_request_def)

lemma fetched_manifest_api_free:
  assumes "fetch_assets env (map asset_request ASSETS_TO_CACHE) = Some rs"
  shows "list_all (\<lambda>e. \<not> str_includes (url (fst e)) ''/api/'') rs"
proof -
  have "map fst rs = map asset_request ASSETS_TO_CACHE"
    using assms by (rule fetch_assets_keys)
  then have "list_all (\<lambda>q. \<not> str_includes (url q) ''/api/'') (map fst rs)"
    using manifest_requests_api_free by simp
  then show ?thesis by (simp add: list_all_iff)
qed

lemma install_cases:
  "(\<exists>rs. fetch_assets env (map asset_request ASSETS_TO_CACHE) = Some rs \<and>
      install env s = \<lparr>installed = Installed,
        storage_installed = put_all CACHE_NAME rs (caches_open CACHE_NAME s),
        skip_waiting_called = True\<rparr>) \<or>
   (fetch_assets env (map asset_request ASSETS_TO_CACHE) = None \<and>
      install env s = \<lparr>installed = InstallFailed,
        storage_installed = caches_open CACHE_NAME s, skip_waiting_called = False\<rparr>)"
  by (cases "fetch_assets env (map asset_request ASSETS_TO_CACHE)") (simp_all add: install_def)

lemma caches_keys_install:
  "caches_keys (storage_installed (install env s)) = caches_keys (caches_open CACHE_NAME s)"
  using install_cases [of env s] by (auto simp: caches_keys_put_all)

lemma caches_keys_activate:
  "caches_keys (storage_activated (activate s)) = filter (\<lambda>k. k = CACHE_NAME) (caches_keys s)"
  by (simp add: activate_storage caches_keys_def filter_map comp_def)

lemma single_generation_open: "single_generation s \<Longrightarrow> caches_keys (caches_open CACHE_NAME s) = [CACHE_NAME]"
  by (auto simp: single_generation_def caches_keys_open)

lemma api_free_install:
  "api_free s \<Longrightarrow> api_free (storage_installed (install env s))"
  using install_cases [of env s]
  by (auto simp: api_free_open intro!: api_free_put_all dest: fetched_manifest_api_free)

lemma fetch_handler_storage_cases:
  "storage_after (fetch_handler env s q) = s \<or>
   (\<not> str_includes (url q) ''/api/'' \<and>
     (storage_after (fetch_handler env s q) = caches_open CACHE_NAME s \<or>
      (\<exists>r. storage_after (fetch_handler env s q) = generation_put CACHE_NAME q r (caches_open CACHE_NAME s))))"
  by (auto simp: fetch_handler_def split: option.splits net_result.splits)

lemma api_free_fetch: "api_free s \<Longrightarrow> api_free (storage_after (fetch_handler env s q))"
  using fetch_handler_storage_cases [of env s q]
  by (auto simp: api_free_open api_free_generation_put)

lemma single_generation_fetch:
  "single_generation s \<Longrightarrow> single_generation (storage_after (fetch_handler env s q))"
  using fetch_handler_storage_cases [of env s q]
  by (auto simp: single_generation_open caches_keys_generation_put single_generation_def)


lemma generation_put_absent: "n \<notin> set (caches_keys s) \<Longrightarrow> generation_put n q r s = s"
  by (induction s) (auto simp: generation_put_def caches_keys_def)

lemma put_all_absent: "n \<notin> set (caches_keys s) \<Longrightarrow> put_all n es s = s"
  by (induction es arbitrary: s) (auto simp: generation_put_absent)

lemma put_all_append: "put_all n es (s @ t) = put_all n es s @ put_all n es t"
  by (induction es arbitrary: s t) (auto simp: generation_put_def)

lemma filter_absent: "n \<notin> set (caches_keys s) \<Longrightarrow> filter (\<lambda>g. fst g = n) s = []"
  by (induction s) (auto simp: caches_keys_def)

lemma filter_only: "caches_keys s = [n] \<Longrightarrow> filter (\<lambda>g. fst g = n) s = s"
  by (cases s) (auto simp: caches_keys_def)

lemma first_activation:
  assumes "CACHE_NAME \<notin> set (caches_keys s0)" and "installed (install env s0) = Installed"
  shows "single_generation (storage_activated (activate (storage_installed (install env s0))))"
    and "api_free (storage_activated (activate (storage_installed (install env s0))))"
proof -
  from assms(2) install_cases [of env s0] obtain rs
    where rs: "fetch_assets env (map asset_request ASSETS_TO_CACHE) = Some rs"
      and inst: "storage_installed (install env s0) = put_all CACHE_NAME rs (caches_open CACHE_NAME s0)"
    by auto
  let ?new = "put_all CACHE_NAME rs [(CACHE_NAME, [])]"
  have keys: "caches_keys ?new = [CACHE_NAME]"
    by (simp add: caches_keys_put_all) (simp add: caches_keys_def)
  have "storage_installed (install env s0) = s0 @ ?new"
    using assms(1) by (simp add: inst caches_open_def put_all_append put_all_absent)
  then have act: "storage_activated (activate (storage_installed (install env s0))) = ?new"
    using assms(1) keys by (simp add: activate_storage filter_absent filter_only)
  show "single_generation (storage_activated (activate (storage_installed (install env s0))))"
    by (simp add: act single_generation_def keys)
  have "api_free [(CACHE_NAME, [])]"
    by (simp add: api_free_def)
  then have "api_free ?new"
    using fetched_manifest_api_free [OF rs] by (rule api_free_put_all)
  then show "api_free (storage_activated (activate (storage_installed (install env s0))))"
    by (simp add: act)
qed

lemma single_generation_activate_install:
  "single_generation s \<Longrightarrow> single_generation (storage_activated (activate (storage_installed (install env s))))"
  by (simp add: single_generation_def caches_keys_activate caches_keys_install single_generation_open)

lemma single_generation_delete: "single_generation s \<Longrightarrow> single_generation (caches_delete n s)"
  by (auto simp: single_generation_def caches_keys_delete split: if_splits)

lemma serving_invariant: "s \<in> serving \<Longrightarrow> single_generation s \<and> api_free s"
proof (induction rule: serving.induct)
  case (activated s0 env)
  then show ?case by (simp add: first_activation)
next
  case (served s env q)
  then show ?case by (simp add: single_generation_fetch api_free_fetch)
next
  case (reactivated s env)
  then show ?case
    using single_generation_activate_install [of s env]
    by (simp add: activate_storage api_free_filter api_free_install)
next
  case (purged s n)
  then show ?case
    using single_generation_delete [of s n] by (simp add: caches_delete_def api_free_filter)
qed

lemma caches_match_current:
  "list_all (\<lambda>g. cache_match (snd g) q = None) (older_generations s) \<Longrightarrow>
   cache_match (generation CACHE_NAME s) q = Some r \<Longrightarrow> caches_match s q = Some r"
  by (induction s) (auto simp: older_generations_def generation_def cache_match_def split: if_splits)

lemma older_generations_single: "single_generation s \<Longrightarrow> older_generations s = []"
  by (cases s) (auto simp: single_generation_def older_generations_def caches_keys_def)

lemma older_generations_serving: "s \<in> serving \<Longrightarrow> older_generations s = []"
  by (simp add: serving_invariant older_generations_single)

lemma str_includes_iff: "str_includes u sub = (\<exists>pre post. u = pre @ sub @ post)"
proof (induction u)
  case Nil
  show ?case by auto
next
  case (Cons c cs)
  have "(take (length sub) (c # cs) = sub) = (\<exists>post. c # cs = sub @ post)"
    by (metis append_eq_conv_conj append_take_drop_id)
  moreover have "(\<exists>pre post. c # cs = pre @ sub @ post) =
      ((\<exists>post. c # cs = sub @ post) \<or> (\<exists>pre post. cs = pre @ sub @ post))"
  proof
    assume "\<exists>pre post. c # cs = pre @ sub @ post"
    then obtain pre post where eq: "c # cs = pre @ sub @ post" by blast
    show "(\<exists>post. c # cs = sub @ post) \<or> (\<exists>pre post. cs = pre @ sub @ post)"
    proof (cases pre)
      case Nil
      with eq show ?thesis by auto
    next
      case (Cons a pre')
      with eq have "cs = pre' @ sub @ post" by simp
      then show ?thesis by blast
    qed
  next
    assume "(\<exists>post. c # cs = sub @ post) \<or> (\<exists>pre post. cs = pre @ sub @ post)"
    then show "\<exists>pre post. c # cs = pre @ sub @ post"
    proof
      assume "\<exists>post. c # cs = sub @ post"
      then obtain post where "c # cs = [] @ sub @ post" by auto
      then show ?thesis by blast
    next
      assume "\<exists>pre post. cs = pre @ sub @ post"
      then obtain pre post where "c # cs = (c # pre) @ sub @ post" by auto
      then show ?thesis by blast
    qed
  qed
  ultimately show ?case
    using Cons.IH by simp
qed

lemma str_includes_strip_fragment:
  assumes "str_includes (strip_fragment u) sub"
  shows "str_includes u sub"
proof -
  from assms obtain pre post where "strip_fragment u = pre @ sub @ post"
    by (auto simp: str_includes_iff)
  then have "u = pre @ sub @ (post @ dropWhile (\<lambda>c. c \<noteq> CHR ''#'') u)"
    by (metis append.assoc strip_fragment_def takeWhile_dropWhile_id)
  then show ?thesis
    unfolding str_includes_iff by blast
qed

lemma cache_match_api_free:
  assumes "list_all (\<lambda>e. \<not> str_includes (url (fst e)) ''/api/'') c"
    and "str_includes (strip_fragment (url q)) ''/api/''"
  shows "cache_match c q = None"
proof -
  have "resource_key (fst e) \<noteq> resource_key q" if "e \<in> set c" for e
  proof
    assume "resource_key (fst e) = resource_key q"
    then have "str_includes (strip_fragment (url (fst e))) ''/api/''"
      using assms(2) by (simp add: resource_key_def)
    then have "str_includes (url (fst e)) ''/api/''"
      by (rule str_includes_strip_fragment)
    with assms(1) that show False
      by (simp add: list_all_iff)
  qed
  then show ?thesis
    by (force simp: cache_match_def map_of_eq_None_iff)
qed

lemma caches_match_api_free:
  "api_free s \<Longrightarrow> str_includes (strip_fragment (url q)) ''/api/'' \<Longrightarrow> caches_match s q = None"
  by (induction s) (auto simp: api_free_def cache_match_api_free)


subsection \<open>The example storage\<close>

lemma example_storage_value:
  "example_storage =
    [(CACHE_NAME, map (\<lambda>u. (asset_request u, \<lparr>status = 200, payload = u\<rparr>)) ASSETS_TO_CACHE)]"
  by (simp add: example_storage_def activate_storage install_def always_200_def ASSETS_TO_CACHE_def ok_def
      caches_open_def caches_keys_def generation_put_def cache_put_def asset_request_def
      resource_key_def strip_fragment_def)

lemma example_installed: "installed (install always_200 []) = Installed"
  by (simp add: install_def always_200_def ASSETS_TO_CACHE_def ok_def)

lemma example_serving: "example_storage \<in> serving"
  unfolding example_storage_def
  by (rule serving.activated) (simp_all add: example_installed caches_keys_def)

subsection \<open>The fetch listener\<close>

lemma fetch_hit:
  "caches_match s q = Some r \<Longrightarrow>
   fetch_handler env s q = \<lparr>answer = Responded r, storage_after = s, network_log = []\<rparr>"
  by (simp add: fetch_handler_def)

lemma fetch_each_hit:
  "caches_match s q = Some r \<Longrightarrow>
   fetch_each envs s q =
     replicate (length envs) \<lparr>answer = Responded r, storage_after = s, network_log = []\<rparr>"
  by (induction envs) (simp_all add: fetch_hit)

text \<open>
  Claim C1. A request that has a stored response in the current generation is answered
  with that stored response, no request goes to the network and the storage is left as it
  was; so the same holds for every repeated fetch of the request, whatever the network
  would answer by then. The listener asks the whole cache storage, which answers with the
  first match in creation order: the statement is for the storages in which no
  generation older than the current one holds the request. After activation there is no
  older generation at all (lemma \<open>older_generations_serving\<close>).
\<close>

theorem cache_first_hit:
  assumes "list_all (\<lambda>g. cache_match (snd g) q = None) (older_generations s)"
    and "cache_match (generation CACHE_NAME s) q = Some r"
  shows "fetch_handler env s q = \<lparr>answer = Responded r, storage_after = s, network_log = []\<rparr> \<and>
         fetch_each envs s q =
           replicate (length envs) \<lparr>answer = Responded r, storage_after = s, network_log = []\<rparr>"
proof -
  from assms have "caches_match s q = Some r"
    by (rule caches_match_current)
  then show ?thesis
    by (simp add: fetch_hit fetch_each_hit)
qed

theorem cache_first_hit_witness:
  "list_all (\<lambda>g. cache_match (snd g) (asset_request ''/styles.css'') = None)
     (older_generations storage_with_newer) \<and>
   cache_match (generation CACHE_NAME storage_with_newer) (asset_request ''/styles.css'') =
     Some \<lparr>status = 200, payload = ''/styles.css''\<rparr> \<and>
   fetch_handler offline storage_with_newer (asset_request ''/styles.css'') =
     \<lparr>answer = Responded \<lparr>status = 200, payload = ''/styles.css''\<rparr>,
      storage_after = storage_with_newer, network_log = []\<rparr> \<and>
   fetch_each [offline, always_404] storage_with_newer (asset_request ''/styles.css'') =
     [\<lparr>answer = Responded \<lparr>status = 200, payload = ''/styles.css''\<rparr>,
       storage_after = storage_with_newer, network_log = []\<rparr>,
      \<lparr>answer = Responded \<lparr>status = 200, payload = ''/styles.css''\<rparr>,
       storage_after = storage_with_newer, network_log = []\<rparr>]"
proof -
  have two: "replicate (length [offline, always_404]) out = [out, out]" for out :: fetch_outcome
    by simp
  have older: "list_all (\<lambda>g. cache_match (snd g) (asset_request ''/styles.css'') = None)
     (older_generations storage_with_newer)"
    by (simp add: older_generations_def storage_with_newer_def example_storage_value CACHE_NAME_def)
  have stored: "cache_match (generation CACHE_NAME storage_with_newer) (asset_request ''/styles.css'') =
     Some \<lparr>status = 200, payload = ''/styles.css''\<rparr>"
    by (simp add: storage_with_newer_def example_storage_value generation_def cache_match_def
        ASSETS_TO_CACHE_def asset_request_def resource_key_def strip_fragment_def)
  show ?thesis
    using cache_first_hit [OF older stored, of offline "[offline, always_404]", unfolded two]
      older stored
    by blast
qed

lemma fetch_api_storage:
  "str_includes (url q) ''/api/'' \<Longrightarrow> storage_after (fetch_handler env t q) = t"
  by (simp add: fetch_handler_def split: option.splits net_result.splits)

lemma fetch_api_miss:
  "str_includes (url q) ''/api/'' \<Longrightarrow> caches_match s q = None \<Longrightarrow>
   fetch_handler env s q = \<lparr>answer = network env q, storage_after = s, network_log = [q]\<rparr>"
  by (simp add: fetch_handler_def split: net_result.splits)

text \<open>
  Claim C4, as stated, fails in its second half. The listener asks the cache before it
  looks at the URL, and the cache ignores the fragment: a request for \<^verbatim>\<open>/#/api/keys\<close>
  contains \<^verbatim>\<open>/api/\<close> and is answered with the stored response of \<^verbatim>\<open>/\<close>, without a
  network request, in the storage the worker's own install left. And a cache that another
  script of the origin filled with a response for \<^verbatim>\<open>/api/v1/keys\<close> serves that request.
\<close>

theorem api_served_from_cache_counterexample:
  "str_includes ''/#/api/keys'' ''/api/'' \<and>
   example_storage \<in> serving \<and>
   fetch_handler offline example_storage \<lparr>url = ''/#/api/keys'', http_method = ''GET''\<rparr> =
     \<lparr>answer = Responded \<lparr>status = 200, payload = ''/''\<rparr>,
      storage_after = example_storage, network_log = []\<rparr> \<and>
   str_includes ''/api/v1/keys'' ''/api/'' \<and>
   fetch_handler offline foreign_storage \<lparr>url = ''/api/v1/keys'', http_method = ''GET''\<rparr> =
     \<lparr>answer = Responded \<lparr>status = 200, payload = ''keys''\<rparr>,
      storage_after = foreign_storage, network_log = []\<rparr>"
proof -
  have "caches_match example_storage \<lparr>url = ''/#/api/keys'', http_method = ''GET''\<rparr> =
      Some \<lparr>status = 200, payload = ''/''\<rparr>"
    by (simp add: example_storage_value cache_match_def resource_key_def strip_fragment_def
        ASSETS_TO_CACHE_def asset_request_def)
  then have own: "fetch_handler offline example_storage \<lparr>url = ''/#/api/keys'', http_method = ''GET''\<rparr> =
     \<lparr>answer = Responded \<lparr>status = 200, payload = ''/''\<rparr>,
      storage_after = example_storage, network_log = []\<rparr>"
    by (rule fetch_hit)
  have "caches_match foreign_storage \<lparr>url = ''/api/v1/keys'', http_method = ''GET''\<rparr> =
      Some \<lparr>status = 200, payload = ''keys''\<rparr>"
    by (simp add: foreign_storage_def cache_match_def resource_key_def strip_fragment_def)
  then have foreign: "fetch_handler offline foreign_storage \<lparr>url = ''/api/v1/keys'', http_method = ''GET''\<rparr> =
     \<lparr>answer = Responded \<lparr>status = 200, payload = ''keys''\<rparr>,
      storage_after = foreign_storage, network_log = []\<rparr>"
    by (rule fetch_hit)
  have "str_includes ''/#/api/keys'' ''/api/''" and "str_includes ''/api/v1/keys'' ''/api/''"
    by simp_all
  with own foreign example_serving show ?thesis
    by blast
qed

text \<open>
  Claim C4, amended. For a request whose URL contains \<^verbatim>\<open>/api/\<close> the listener leaves the
  cache storage as it found it, in any storage and whatever the network answers. When
  \<^verbatim>\<open>/api/\<close> occurs in the URL before any fragment, and the storage is one that only this
  worker has filled (its install, its activation, the listener's own writes, purges), no
  stored request matches: the answer is the network's and one request goes to the
  network.
\<close>

theorem api_pass_through:
  assumes "str_includes (url q) ''/api/''"
  shows "storage_after (fetch_handler env t q) = t \<and>
         (s \<in> serving \<and> str_includes (strip_fragment (url q)) ''/api/'' \<longrightarrow>
            fetch_handler env s q = \<lparr>answer = network env q, storage_after = s, network_log = [q]\<rparr>)"
proof -
  have "fetch_handler env s q = \<lparr>answer = network env q, storage_after = s, network_log = [q]\<rparr>"
    if "s \<in> serving" and "str_includes (strip_fragment (url q)) ''/api/''"
  proof -
    from that(1) have "api_free s" by (simp add: serving_invariant)
    then have "caches_match s q = None"
      using that(2) by (rule caches_match_api_free)
    with assms show ?thesis by (rule fetch_api_miss)
  qed
  then show ?thesis
    using assms by (simp add: fetch_api_storage)
qed

theorem api_pass_through_witness:
  "str_includes ''/api/v1/scan'' ''/api/'' \<and>
   str_includes (strip_fragment ''/api/v1/scan'') ''/api/'' \<and>
   example_storage \<in> serving \<and>
   storage_after (fetch_handler always_200 example_storage \<lparr>url = ''/api/v1/scan'', http_method = ''POST''\<rparr>) =
     example_storage \<and>
   fetch_handler always_200 example_storage \<lparr>url = ''/api/v1/scan'', http_method = ''POST''\<rparr> =
     \<lparr>answer = Responded \<lparr>status = 200, payload = ''/api/v1/scan''\<rparr>,
      storage_after = example_storage,
      network_log = [\<lparr>url = ''/api/v1/scan'', http_method = ''POST''\<rparr>]\<rparr>"
proof -
  have api: "str_includes (url \<lparr>url = ''/api/v1/scan'', http_method = ''POST''\<rparr>) ''/api/''"
    by simp
  have path: "str_includes (strip_fragment (url \<lparr>url = ''/api/v1/scan'', http_method = ''POST''\<rparr>)) ''/api/''"
    by (simp add: strip_fragment_def)
  have answer: "network always_200 \<lparr>url = ''/api/v1/scan'', http_method = ''POST''\<rparr> =
      Responded \<lparr>status = 200, payload = ''/api/v1/scan''\<rparr>"
    by (simp add: always_200_def)
  have plain: "str_includes ''/api/v1/scan'' ''/api/''"
    and plain': "str_includes (strip_fragment ''/api/v1/scan'') ''/api/''"
    by (simp_all add: strip_fragment_def)
  show ?thesis
    using api_pass_through [OF api, of always_200 example_storage example_storage] example_serving
      path plain plain'
    unfolding answer by blast
qed

lemma clone_same: "clone r = r"
  by (simp add: clone_def)

lemma open_has_key: "n \<in> set (caches_keys (caches_open n s))"
  by (simp add: caches_keys_open)

lemma stored_after_put:
  "cache_match (generation n (generation_put n q r (caches_open n s))) q = Some r"
  by (simp add: generation_generation_put open_has_key cache_match_put_same)

text \<open>
  Claim C5. On a cache miss for a request whose URL does not contain \<^verbatim>\<open>/api/\<close>, the
  response of the network is what the caller gets. With status 200 the listener writes a
  clone of it under the request in the current generation: once the write is done the
  generation has the response stored for the request (a write the platform refuses leaves
  the generation's content as it was and does not change the answer). With any other
  status the storage is not touched.
\<close>

theorem miss_populates_on_200:
  assumes "caches_match s q = None" and "\<not> str_includes (url q) ''/api/''"
    and "network env q = Responded r"
  shows "answer (fetch_handler env s q) = Responded r \<and>
         network_log (fetch_handler env s q) = [q] \<and>
         (status r = 200 \<and> put_accepted env q (clone r) \<longrightarrow>
            storage_after (fetch_handler env s q) =
              generation_put CACHE_NAME q (clone r) (caches_open CACHE_NAME s) \<and>
            cache_match (generation CACHE_NAME (storage_after (fetch_handler env s q))) q = Some r) \<and>
         (status r = 200 \<and> \<not> put_accepted env q (clone r) \<longrightarrow>
            storage_after (fetch_handler env s q) = caches_open CACHE_NAME s \<and>
            generation CACHE_NAME (storage_after (fetch_handler env s q)) = generation CACHE_NAME s) \<and>
         (status r \<noteq> 200 \<longrightarrow> storage_after (fetch_handler env s q) = s)"
  using assms stored_after_put [of CACHE_NAME q r s]
  by (simp add: fetch_handler_def clone_same generation_open)

theorem miss_populates_on_200_witness:
  "caches_match example_storage \<lparr>url = ''/logo.png'', http_method = ''GET''\<rparr> = None \<and>
   \<not> str_includes ''/logo.png'' ''/api/'' \<and>
   answer (fetch_handler always_200 example_storage \<lparr>url = ''/logo.png'', http_method = ''GET''\<rparr>) =
     Responded \<lparr>status = 200, payload = ''/logo.png''\<rparr> \<and>
   cache_match
     (generation CACHE_NAME
       (storage_after (fetch_handler always_200 example_storage \<lparr>url = ''/logo.png'', http_method = ''GET''\<rparr>)))
     \<lparr>url = ''/logo.png'', http_method = ''GET''\<rparr> = Some \<lparr>status = 200, payload = ''/logo.png''\<rparr> \<and>
   answer (fetch_handler always_404 example_storage \<lparr>url = ''/logo.png'', http_method = ''GET''\<rparr>) =
     Responded \<lparr>status = 404, payload = []\<rparr> \<and>
   storage_after (fetch_handler always_404 example_storage \<lparr>url = ''/logo.png'', http_method = ''GET''\<rparr>) =
     example_storage"
proof -
  let ?q = "\<lparr>url = ''/logo.png'', http_method = ''GET''\<rparr>"
  have miss: "caches_match example_storage ?q = None"
    by (simp add: example_storage_value cache_match_def ASSETS_TO_CACHE_def asset_request_def
        resource_key_def strip_fragment_def)
  have static: "\<not> str_includes (url ?q) ''/api/''"
    by simp
  have found: "network always_200 ?q = Responded \<lparr>status = 200, payload = ''/logo.png''\<rparr>"
    by (simp add: always_200_def)
  have missing: "network always_404 ?q = Responded \<lparr>status = 404, payload = []\<rparr>"
    by (simp add: always_404_def)
  have accepted: "put_accepted always_200 ?q (clone \<lparr>status = 200, payload = ''/logo.png''\<rparr>)"
    by (simp add: always_200_def)
  have is_200: "status \<lparr>status = 200, payload = ''/logo.png''\<rparr> = 200"
    and not_200: "status \<lparr>status = 404, payload = []\<rparr> \<noteq> 200"
    and static': "\<not> str_includes ''/logo.png'' ''/api/''"
    by simp_all
  show ?thesis
    using miss_populates_on_200 [OF miss static found] miss_populates_on_200 [OF miss static missing]
      miss accepted is_200 not_200 static'
    by blast
qed

subsection \<open>The activate listener\<close>

lemma generation_filter_current:
  "generation CACHE_NAME (filter (\<lambda>g. fst g = CACHE_NAME) s) = generation CACHE_NAME s"
  by (induction s) (auto simp: generation_def)

lemma filter_current_distinct:
  "distinct ks \<Longrightarrow> CACHE_NAME \<in> set ks \<Longrightarrow> filter (\<lambda>k. k = CACHE_NAME) ks = [CACHE_NAME]"
  by (induction ks) (auto simp: filter_empty_conv)

lemma activate_effects:
  "\<exists>stale. effects (activate s) = map CacheDeleted stale @ [ClientsClaimed] \<and>
      set stale = set (caches_keys s) - {CACHE_NAME}"
  by (rule exI [of _ "filter (\<lambda>cacheName. cacheName \<noteq> CACHE_NAME) (caches_keys s)"])
    (auto simp: activate_def)

text \<open>
  Claim C8. Activation leaves exactly the generations named \<^verbatim>\<open>CACHE_NAME\<close>, with their
  content untouched: every generation of another name is deleted, each deletion is an
  effect that precedes \<^verbatim>\<open>clients.claim()\<close>, and when the current generation exists (names
  being unique) it is the only one left.
\<close>

theorem activate_keeps_current_only:
  "storage_activated (activate s) = filter (\<lambda>g. fst g = CACHE_NAME) s \<and>
   set (caches_keys (storage_activated (activate s))) \<subseteq> {CACHE_NAME} \<and>
   generation CACHE_NAME (storage_activated (activate s)) = generation CACHE_NAME s \<and>
   (\<exists>stale. effects (activate s) = map CacheDeleted stale @ [ClientsClaimed] \<and>
      set stale = set (caches_keys s) - {CACHE_NAME}) \<and>
   (distinct (caches_keys s) \<and> CACHE_NAME \<in> set (caches_keys s) \<longrightarrow>
      caches_keys (storage_activated (activate s)) = [CACHE_NAME])"
proof (intro conjI impI)
  show "storage_activated (activate s) = filter (\<lambda>g. fst g = CACHE_NAME) s"
    by (rule activate_storage)
  show "set (caches_keys (storage_activated (activate s))) \<subseteq> {CACHE_NAME}"
    by (auto simp: caches_keys_activate)
  show "generation CACHE_NAME (storage_activated (activate s)) = generation CACHE_NAME s"
    by (simp add: activate_storage generation_filter_current)
  show "\<exists>stale. effects (activate s) = map CacheDeleted stale @ [ClientsClaimed] \<and>
      set stale = set (caches_keys s) - {CACHE_NAME}"
    by (rule activate_effects)
  show "caches_keys (storage_activated (activate s)) = [CACHE_NAME]"
    if "distinct (caches_keys s) \<and> CACHE_NAME \<in> set (caches_keys s)"
    using that by (simp add: caches_keys_activate filter_current_distinct)
qed

theorem activate_keeps_current_only_witness:
  "distinct (caches_keys [(''v1'', []), (''v2'', []), (CACHE_NAME, [])]) \<and>
   CACHE_NAME \<in> set (caches_keys [(''v1'', []), (''v2'', []), (CACHE_NAME, [])]) \<and>
   caches_keys (storage_activated (activate [(''v1'', []), (''v2'', []), (CACHE_NAME, [])])) = [CACHE_NAME] \<and>
   storage_activated (activate [(''v1'', []), (''v2'', []), (CACHE_NAME, [])]) = [(CACHE_NAME, [])] \<and>
   effects (activate [(''v1'', []), (''v2'', []), (CACHE_NAME, [])]) =
     [CacheDeleted ''v1'', CacheDeleted ''v2'', ClientsClaimed]"
proof -
  have "effects (activate [(''v1'', []), (''v2'', []), (CACHE_NAME, [])]) =
     [CacheDeleted ''v1'', CacheDeleted ''v2'', ClientsClaimed]"
    by (simp add: activate_def caches_keys_def CACHE_NAME_def)
  then show ?thesis
    using activate_keeps_current_only [of "[(''v1'', []), (''v2'', []), (CACHE_NAME, [])]"]
    by (simp add: caches_keys_def CACHE_NAME_def)
qed

subsection \<open>The install listener\<close>

lemma fetch_assets_Some_iff:
  "(\<exists>rs. fetch_assets env (map asset_request us) = Some rs) = list_all (asset_ok env) us"
  by (induction us) (auto simp: asset_ok_def split: net_result.splits option.splits)

lemma fetch_assets_None_iff:
  "(fetch_assets env (map asset_request us) = None) = (\<not> list_all (asset_ok env) us)"
  using fetch_assets_Some_iff [of env us] by auto

lemma generation_put_other_key:
  "resource_key q' \<noteq> resource_key q \<Longrightarrow>
   cache_match (generation n (generation_put n q r s)) q' = cache_match (generation n s) q'"
  by (simp add: generation_generation_put cache_match_put_other)
    (simp add: generation_def caches_keys_def map_of_eq_None_iff [THEN iffD2] cache_match_def)

lemma put_all_other_keys:
  "resource_key q \<notin> (\<lambda>e. resource_key (fst e)) ` set es \<Longrightarrow>
   cache_match (generation n (put_all n es s)) q = cache_match (generation n s) q"
  by (induction es arbitrary: s) (auto simp: generation_put_other_key)

lemma put_all_stored:
  "n \<in> set (caches_keys s) \<Longrightarrow> distinct (map (\<lambda>e. resource_key (fst e)) es) \<Longrightarrow> (q, r) \<in> set es \<Longrightarrow>
   cache_match (generation n (put_all n es s)) q = Some r"
proof (induction es arbitrary: s)
  case Nil
  then show ?case by simp
next
  case (Cons e es)
  show ?case
  proof (cases "(q, r) = e")
    case True
    with Cons.prems have "resource_key q \<notin> (\<lambda>e. resource_key (fst e)) ` set es" by force
    then have "cache_match (generation n (put_all n es (generation_put n q r s))) q =
        cache_match (generation n (generation_put n q r s)) q"
      by (rule put_all_other_keys)
    also have "\<dots> = Some r"
      using Cons.prems(1) by (simp add: generation_generation_put cache_match_put_same)
    finally show ?thesis
      using True by auto
  next
    case False
    with Cons.prems have "(q, r) \<in> set es" and "distinct (map (\<lambda>e. resource_key (fst e)) es)" by auto
    moreover have "n \<in> set (caches_keys (generation_put n (fst e) (snd e) s))"
      using Cons.prems(1) by (simp add: caches_keys_generation_put)
    ultimately show ?thesis
      using Cons.IH by simp
  qed
qed

lemma manifest_distinct: "distinct (map (\<lambda>u. resource_key (asset_request u)) ASSETS_TO_CACHE)"
  by (simp add: ASSETS_TO_CACHE_def asset_request_def resource_key_def strip_fragment_def)

lemma install_stores_manifest:
  assumes "list_all (asset_ok env) ASSETS_TO_CACHE" and "u \<in> set ASSETS_TO_CACHE"
  shows "\<exists>r. network env (asset_request u) = Responded r \<and>
     cache_match (generation CACHE_NAME (storage_installed (install env s))) (asset_request u) = Some r"
proof -
  from assms(1) obtain rs where rs: "fetch_assets env (map asset_request ASSETS_TO_CACHE) = Some rs"
    using fetch_assets_Some_iff [of env ASSETS_TO_CACHE] by auto
  then have keys: "map fst rs = map asset_request ASSETS_TO_CACHE"
    by (rule fetch_assets_keys)
  with assms(2) have "asset_request u \<in> fst ` set rs"
    by (metis image_eqI list.set_map)
  then obtain r where r: "(asset_request u, r) \<in> set rs"
    by auto
  have "cache_match (generation CACHE_NAME (put_all CACHE_NAME rs (caches_open CACHE_NAME s))) (asset_request u) = Some r"
  proof (rule put_all_stored)
    show "CACHE_NAME \<in> set (caches_keys (caches_open CACHE_NAME s))"
      by (rule open_has_key)
    have "map (\<lambda>e. resource_key (fst e)) rs = map resource_key (map fst rs)"
      by simp
    then show "distinct (map (\<lambda>e. resource_key (fst e)) rs)"
      using manifest_distinct by (simp add: keys comp_def)
    show "(asset_request u, r) \<in> set rs"
      by (rule r)
  qed
  moreover have "network env (asset_request u) = Responded r"
    using rs r by (rule fetch_assets_answers)
  ultimately show ?thesis
    using rs by (simp add: install_def)
qed

text \<open>
  Claim C9. The install step succeeds exactly when every asset of the manifest is fetched
  and accepted. Then \<^verbatim>\<open>skipWaiting\<close> is called and the current generation holds, for every
  asset, the response the network gave. When a single asset fails, the step fails,
  \<^verbatim>\<open>skipWaiting\<close> is not called and nothing is written: the generation has the content it
  had before (none, when it is new), so the worker is never activated on a generation
  that is partly filled.
\<close>

theorem install_all_or_nothing:
  "(installed (install env s) = Installed) = list_all (asset_ok env) ASSETS_TO_CACHE \<and>
   (list_all (asset_ok env) ASSETS_TO_CACHE \<longrightarrow>
      skip_waiting_called (install env s) \<and>
      (\<forall>u \<in> set ASSETS_TO_CACHE. \<exists>r. network env (asset_request u) = Responded r \<and>
         cache_match (generation CACHE_NAME (storage_installed (install env s))) (asset_request u) = Some r)) \<and>
   ((\<exists>u \<in> set ASSETS_TO_CACHE. \<not> asset_ok env u) \<longrightarrow>
      installed (install env s) = InstallFailed \<and>
      \<not> skip_waiting_called (install env s) \<and>
      storage_installed (install env s) = caches_open CACHE_NAME s \<and>
      generation CACHE_NAME (storage_installed (install env s)) = generation CACHE_NAME s)"
proof (intro conjI impI)
  show "(installed (install env s) = Installed) = list_all (asset_ok env) ASSETS_TO_CACHE"
    using install_cases [of env s] fetch_assets_Some_iff [of env ASSETS_TO_CACHE] by auto
  show "skip_waiting_called (install env s)" if "list_all (asset_ok env) ASSETS_TO_CACHE"
    using that install_cases [of env s] fetch_assets_None_iff [of env ASSETS_TO_CACHE] by auto
  show "\<forall>u \<in> set ASSETS_TO_CACHE. \<exists>r. network env (asset_request u) = Responded r \<and>
         cache_match (generation CACHE_NAME (storage_installed (install env s))) (asset_request u) = Some r"
    if "list_all (asset_ok env) ASSETS_TO_CACHE"
    using that by (blast intro: install_stores_manifest)
next
  assume "\<exists>u \<in> set ASSETS_TO_CACHE. \<not> asset_ok env u"
  then have "\<not> list_all (asset_ok env) ASSETS_TO_CACHE"
    by (simp add: list_all_iff)
  then have failed: "install env s = \<lparr>installed = InstallFailed,
        storage_installed = caches_open CACHE_NAME s, skip_waiting_called = False\<rparr>"
    using install_cases [of env s] fetch_assets_Some_iff [of env ASSETS_TO_CACHE] by auto
  show "installed (install env s) = InstallFailed"
    and "\<not> skip_waiting_called (install env s)"
    and "storage_installed (install env s) = caches_open CACHE_NAME s"
    and "generation CACHE_NAME (storage_installed (install env s)) = generation CACHE_NAME s"
    by (simp_all add: failed generation_open)
qed

theorem install_all_or_nothing_witness:
  "list_all (asset_ok always_200) ASSETS_TO_CACHE \<and>
   installed (install always_200 []) = Installed \<and>
   skip_waiting_called (install always_200 []) \<and>
   cache_match (generation CACHE_NAME (storage_installed (install always_200 [])))
     (asset_request ''/index.html'') = Some \<lparr>status = 200, payload = ''/index.html''\<rparr> \<and>
   \<not> asset_ok styles_missing ''/styles.css'' \<and>
   installed (install styles_missing []) = InstallFailed \<and>
   \<not> skip_waiting_called (install styles_missing []) \<and>
   storage_installed (install styles_missing []) = [(CACHE_NAME, [])]"
proof -
  have good: "list_all (asset_ok always_200) ASSETS_TO_CACHE"
    by (simp add: asset_ok_def always_200_def ok_def ASSETS_TO_CACHE_def)
  have index: "''/index.html'' \<in> set ASSETS_TO_CACHE"
    by (simp add: ASSETS_TO_CACHE_def)
  have answer: "network always_200 (asset_request ''/index.html'') =
      Responded \<lparr>status = 200, payload = ''/index.html''\<rparr>"
    by (simp add: always_200_def asset_request_def)
  have bad: "\<not> asset_ok styles_missing ''/styles.css''"
    by (simp add: asset_ok_def styles_missing_def ok_def asset_request_def)
  have styles: "''/styles.css'' \<in> set ASSETS_TO_CACHE"
    by (simp add: ASSETS_TO_CACHE_def)
  have opened: "caches_open CACHE_NAME [] = [(CACHE_NAME, [])]"
    by (simp add: caches_open_def caches_keys_def)
  from install_all_or_nothing [of always_200 "[]"] good index answer
  have "installed (install always_200 []) = Installed"
    and "skip_waiting_called (install always_200 [])"
    and "cache_match (generation CACHE_NAME (storage_installed (install always_200 [])))
     (asset_request ''/index.html'') = Some \<lparr>status = 200, payload = ''/index.html''\<rparr>"
    by auto
  moreover from install_all_or_nothing [of styles_missing "[]"] bad styles opened
  have "installed (install styles_missing []) = InstallFailed"
    and "\<not> skip_waiting_called (install styles_missing [])"
    and "storage_installed (install styles_missing []) = [(CACHE_NAME, [])]"
    by auto
  ultimately show ?thesis
    using good bad by blast
qed

section \<open>Properties of the pending-scan queue\<close>

lemma replay_scan_trace: "trace (replay_scan env k scan st) = trace st @ scan_events env k scan"
  by (simp add: scan_events_def replay_scan_def split: net_result.splits)

lemma replay_scan_queue:
  "queue (replay_scan env k scan st) =
    (if removed env k scan then db_delete ''pending'' (js_get scan ''id'') (queue st) else queue st)"
  by (simp add: replay_scan_def removed_def acknowledged_def split: net_result.splits)

lemma scan_events_cases:
  "scan_events env k scan = [Fetched scan (scan_call scan) NetworkError, SyncFailedLogged] \<and>
     replay_network env k (scan_call scan) = NetworkError \<or>
   (\<exists>r. replay_network env k (scan_call scan) = Responded r \<and> \<not> ok r \<and>
     scan_events env k scan = [Fetched scan (scan_call scan) (Responded r)]) \<or>
   (\<exists>r. replay_network env k (scan_call scan) = Responded r \<and> ok r \<and> delete_rejects env k \<and>
     scan_events env k scan =
       [Fetched scan (scan_call scan) (Responded r), DeleteCalled (js_get scan ''id''), SyncFailedLogged]) \<or>
   (\<exists>r. replay_network env k (scan_call scan) = Responded r \<and> ok r \<and> \<not> delete_rejects env k \<and>
     scan_events env k scan =
       [Fetched scan (scan_call scan) (Responded r), DeleteCalled (js_get scan ''id'')])"
  by (cases "replay_network env k (scan_call scan)") (auto simp: scan_events_def replay_scan_def)

lemma attempted_append: "attempted (t @ u) = attempted t @ attempted u"
  by (induction t rule: attempted.induct) simp_all

lemma calls_append: "calls (t @ u) = calls t @ calls u"
  by (induction t rule: calls.induct) simp_all

lemma attempted_scan_events: "attempted (scan_events env k scan) = [scan]"
  using scan_events_cases [of env k scan] by auto

lemma calls_scan_events: "calls (scan_events env k scan) = [scan_call scan]"
  using scan_events_cases [of env k scan] by auto

lemma drain_attempted:
  "attempted (trace (drain env k scans st)) = attempted (trace st) @ scans"
  by (induction scans arbitrary: k st)
    (simp_all add: replay_scan_trace attempted_append attempted_scan_events)

lemma drain_calls:
  "calls (trace (drain env k scans st)) = calls (trace st) @ map scan_call scans"
  by (induction scans arbitrary: k st)
    (simp_all add: replay_scan_trace calls_append calls_scan_events)

lemma drain_trace:
  "trace (drain env k scans st) =
     trace st @ concat (map (\<lambda>(i, scan). scan_events env i scan) (enumerate k scans))"
  by (induction scans arbitrary: k st) (simp_all add: replay_scan_trace)

lemma kept_Cons:
  "kept env k (scan # scans) = (if removed env k scan then [] else [scan]) @ kept env (Suc k) scans"
  by (simp add: kept_def)

lemma filter_other_ids:
  assumes "distinct (map (\<lambda>e. js_get e ''id'') (ks @ scan # rest))"
  shows "filter (\<lambda>e. js_get e ''id'' \<noteq> js_get scan ''id'') (ks @ scan # rest) = ks @ rest"
proof -
  from assms have "js_get scan ''id'' \<notin> (\<lambda>e. js_get e ''id'') ` (set ks \<union> set rest)"
    by auto
  then have "\<forall>e \<in> set ks \<union> set rest. js_get e ''id'' \<noteq> js_get scan ''id''"
    by (metis image_eqI)
  then have "filter (\<lambda>e. js_get e ''id'' \<noteq> js_get scan ''id'') ks = ks"
    and "filter (\<lambda>e. js_get e ''id'' \<noteq> js_get scan ''id'') rest = rest"
    by (simp_all add: filter_id_conv)
  then show ?thesis by simp
qed

lemma replay_scan_others:
  "p \<noteq> ''pending'' \<Longrightarrow> partitions (queue (replay_scan env k scan st)) p = partitions (queue st) p"
  by (simp add: replay_scan_queue db_delete_def)

lemma replay_scan_next_id: "next_id (queue (replay_scan env k scan st)) = next_id (queue st)"
  by (simp add: replay_scan_queue db_delete_def)

lemma drain_others:
  "p \<noteq> ''pending'' \<Longrightarrow> partitions (queue (drain env k scans st)) p = partitions (queue st) p"
  by (induction scans arbitrary: k st) (simp_all add: replay_scan_others)

lemma drain_next_id: "next_id (queue (drain env k scans st)) = next_id (queue st)"
  by (induction scans arbitrary: k st) (simp_all add: replay_scan_next_id)

lemma replay_scan_pending:
  assumes "distinct (map (\<lambda>e. js_get e ''id'') (ks @ scan # rest))"
    and "partitions (queue st) ''pending'' = ks @ scan # rest"
  shows "partitions (queue (replay_scan env k scan st)) ''pending'' =
     ks @ (if removed env k scan then [] else [scan]) @ rest"
  using assms filter_other_ids [of ks scan rest]
  by (simp add: replay_scan_queue db_delete_def)

lemma drain_pending:
  assumes "distinct (map (\<lambda>e. js_get e ''id'') (ks @ scans @ rest))"
    and "partitions (queue st) ''pending'' = ks @ scans @ rest"
  shows "partitions (queue (drain env k scans st)) ''pending'' = ks @ kept env k scans @ rest"
  using assms
proof (induction scans arbitrary: k ks st)
  case Nil
  then show ?case by (simp add: kept_def)
next
  case (Cons scan scans)
  have step: "partitions (queue (replay_scan env k scan st)) ''pending'' =
      ks @ (if removed env k scan then [] else [scan]) @ scans @ rest"
    using Cons.prems replay_scan_pending [of ks scan "scans @ rest" st env k] by simp
  show ?case
  proof (cases "removed env k scan")
    case True
    have "partitions (queue (drain env (Suc k) scans (replay_scan env k scan st))) ''pending'' =
        ks @ kept env (Suc k) scans @ rest"
      using Cons.prems True step by (intro Cons.IH) simp_all
    then show ?thesis
      using True by (simp add: kept_Cons)
  next
    case False
    have "partitions (queue (drain env (Suc k) scans (replay_scan env k scan st))) ''pending'' =
        (ks @ [scan]) @ kept env (Suc k) scans @ rest"
      using Cons.prems False step by (intro Cons.IH) simp_all
    then show ?thesis
      using False by (simp add: kept_Cons)
  qed
qed

lemma syncScans_pending:
  assumes "distinct (pending_ids db)"
  shows "db_getAll ''pending'' (queue (syncScans env db)) = kept env 0 (db_getAll ''pending'' db)"
  using assms drain_pending [of "[]" "db_getAll ''pending'' db" "[]" "\<lparr>queue = db, trace = []\<rparr>" env 0]
  by (simp add: syncScans_def pending_ids_def db_getAll_def)

lemma drain_after_pending:
  assumes "distinct (pending_ids db)"
  shows "db_getAll ''pending'' (queue (drain_after env db n)) =
     kept env 0 (take n (db_getAll ''pending'' db)) @ drop n (db_getAll ''pending'' db)"
  using assms
    drain_pending [of "[]" "take n (db_getAll ''pending'' db)" "drop n (db_getAll ''pending'' db)"
      "\<lparr>queue = db, trace = []\<rparr>" env 0]
  by (simp add: drain_after_def pending_ids_def db_getAll_def)

lemma deletes_follow_acks_iff:
  "deletes_follow_acks t =
    (\<forall>i < length t. \<forall>x. t ! i = DeleteCalled x \<longrightarrow>
       0 < i \<and> (\<exists>scan r. t ! (i - 1) = Fetched scan (scan_call scan) (Responded r) \<and> ok r \<and>
                   js_get scan ''id'' = x))"
proof -
  have acks: "acks_id e x =
      (\<exists>scan r. e = Fetched scan (scan_call scan) (Responded r) \<and> ok r \<and> js_get scan ''id'' = x)"
    for e x
    by (auto simp: acks_id_def split: sync_event.splits net_result.splits)
  show ?thesis
    unfolding deletes_follow_acks_def list_all_iff acks
    by (auto split: sync_event.splits)
qed

lemma deletes_follow_acks_append:
  assumes "deletes_follow_acks t" and "deletes_follow_acks u"
  shows "deletes_follow_acks (t @ u)"
  unfolding deletes_follow_acks_iff
proof (intro allI impI)
  fix i x
  assume i: "i < length (t @ u)" and del: "(t @ u) ! i = DeleteCalled x"
  show "0 < i \<and> (\<exists>scan r. (t @ u) ! (i - 1) = Fetched scan (scan_call scan) (Responded r) \<and> ok r \<and>
                   js_get scan ''id'' = x)"
  proof (cases "i < length t")
    case True
    with del have "t ! i = DeleteCalled x" by (simp add: nth_append)
    with assms(1) True have "0 < i \<and> (\<exists>scan r. t ! (i - 1) = Fetched scan (scan_call scan) (Responded r) \<and> ok r \<and>
                   js_get scan ''id'' = x)"
      by (simp add: deletes_follow_acks_iff)
    moreover have "i - 1 < length t"
      using True by simp
    then have "(t @ u) ! (i - 1) = t ! (i - 1)"
      by (simp only: nth_append if_True)
    ultimately show ?thesis by simp
  next
    case False
    define j where "j = i - length t"
    from False i have j: "j < length u" and ij: "i = length t + j"
      by (simp_all add: j_def)
    from del have "u ! j = DeleteCalled x"
      by (simp add: ij)
    with assms(2) j have uj: "0 < j \<and> (\<exists>scan r. u ! (j - 1) = Fetched scan (scan_call scan) (Responded r) \<and> ok r \<and>
                   js_get scan ''id'' = x)"
      by (simp add: deletes_follow_acks_iff)
    then have "i - 1 = length t + (j - 1)"
      by (simp add: ij)
    then have "(t @ u) ! (i - 1) = u ! (j - 1)"
      by (simp only: nth_append_length_plus)
    with uj show ?thesis by (simp add: ij)
  qed
qed

lemma deletes_follow_acks_Nil: "deletes_follow_acks []"
  by (simp add: deletes_follow_acks_iff)

lemma deletes_follow_acks_scan_events: "deletes_follow_acks (scan_events env k scan)"
  using scan_events_cases [of env k scan]
  by (auto simp: deletes_follow_acks_iff nth_Cons' less_Suc_eq)

lemma deletes_follow_acks_drain:
  "deletes_follow_acks (trace st) \<Longrightarrow> deletes_follow_acks (trace (drain env k scans st))"
  by (induction scans arbitrary: k st)
    (simp_all add: replay_scan_trace deletes_follow_acks_append deletes_follow_acks_scan_events)

lemma not_kept_removed:
  assumes "e \<in> set scans" and "e \<notin> set (kept env k scans)"
  shows "\<exists>i. (i, e) \<in> set (enumerate k scans) \<and> removed env i e"
proof -
  from assms(1) obtain j where "j < length scans" and "scans ! j = e"
    by (auto simp: in_set_conv_nth)
  then have mem: "(k + j, e) \<in> set (enumerate k scans)"
    by (auto simp: in_set_enumerate_eq)
  have "removed env (k + j) e"
  proof (rule ccontr)
    assume "\<not> removed env (k + j) e"
    with mem have "(k + j, e) \<in> set (filter (\<lambda>(i, scan). \<not> removed env i scan) (enumerate k scans))"
      by simp
    then have "e \<in> set (kept env k scans)"
      unfolding kept_def by force
    with assms(2) show False by simp
  qed
  with mem show ?thesis by blast
qed

lemma kept_member:
  assumes "j < length scans" and "\<not> removed env (k + j) (scans ! j)"
  shows "scans ! j \<in> set (kept env k scans)"
proof -
  from assms(1) have "(k + j, scans ! j) \<in> set (enumerate k scans)"
    by (auto simp: in_set_enumerate_eq)
  with assms(2) have "(k + j, scans ! j) \<in> set (filter (\<lambda>(i, scan). \<not> removed env i scan) (enumerate k scans))"
    by simp
  then show ?thesis
    unfolding kept_def by force
qed

lemma removed_fetched:
  "removed env i e \<Longrightarrow> \<exists>r. ok r \<and> Fetched e (scan_call e) (Responded r) \<in> set (scan_events env i e)"
  using scan_events_cases [of env i e]
  by (auto simp: removed_def acknowledged_def)

lemma drain_trace_member:
  "(i, e) \<in> set (enumerate k scans) \<Longrightarrow> ev \<in> set (scan_events env i e) \<Longrightarrow>
   ev \<in> set (trace (drain env k scans st))"
  by (force simp: drain_trace)

lemma three_pending_entries: "db_getAll ''pending'' three_pending = [entry1, entry2, entry3]"
  by (simp add: db_getAll_def three_pending_def)

lemma three_pending_distinct: "distinct (pending_ids three_pending)"
  by (simp add: pending_ids_def three_pending_entries entry1_def entry2_def entry3_def js_get_def)

text \<open>
  Claim C2. A drain fetches once for every pending entry, in the order \<^verbatim>\<open>getAll\<close> gave them
  (the enqueue order), whatever the earlier fetches did. Afterwards the store holds, in
  the same order, exactly the entries whose iteration did not end in a removal: an entry
  is removed when its response was ok (and the delete did not fail), and it is left in
  place when the fetch was rejected or the status was not ok. Ids are unique, as the
  store assigns them.
\<close>

theorem drain_in_order:
  assumes "distinct (pending_ids db)"
  shows "attempted (trace (syncScans env db)) = db_getAll ''pending'' db \<and>
         db_getAll ''pending'' (queue (syncScans env db)) =
           map snd (filter (\<lambda>(k, scan). \<not> (acknowledged env k scan \<and> \<not> delete_rejects env k))
             (enumerate 0 (db_getAll ''pending'' db)))"
proof -
  have "attempted (trace (syncScans env db)) = db_getAll ''pending'' db"
    by (simp add: syncScans_def drain_attempted)
  moreover have "db_getAll ''pending'' (queue (syncScans env db)) = kept env 0 (db_getAll ''pending'' db)"
    using assms by (rule syncScans_pending)
  ultimately show ?thesis
    by (simp add: kept_def removed_def)
qed

theorem drain_in_order_witness:
  "distinct (pending_ids three_pending) \<and>
   db_getAll ''pending'' three_pending = [entry1, entry2, entry3] \<and>
   \<not> acknowledged first_fails 0 entry1 \<and>
   acknowledged first_fails 1 entry2 \<and>
   acknowledged first_fails 2 entry3 \<and>
   attempted (trace (syncScans first_fails three_pending)) = [entry1, entry2, entry3] \<and>
   db_getAll ''pending'' (queue (syncScans first_fails three_pending)) = [entry1]"
proof -
  have acks: "\<not> acknowledged first_fails 0 entry1" "acknowledged first_fails 1 entry2"
    "acknowledged first_fails 2 entry3"
    by (simp_all add: acknowledged_def first_fails_def ok_def)
  have never: "\<not> delete_rejects first_fails k" for k
    by (simp add: first_fails_def)
  have two: "Suc (Suc 0) = 2"
    by simp
  show ?thesis
    using drain_in_order [OF three_pending_distinct, of first_fails] acks
    by (simp add: three_pending_entries three_pending_distinct never two)
qed

text \<open>
  Claim C3. After any number \<open>n\<close> of iterations of the drain: every call of \<^verbatim>\<open>db.delete\<close>
  in the trace comes right after an ok response to the resubmission of the entry with
  that id; every entry that is no longer in the store has an ok response to its own
  resubmission in the trace; and an entry whose response was ok but whose delete failed
  is still in the store after the drain, and the next drain fetches for it again.
\<close>

theorem delete_only_after_ack:
  assumes "distinct (pending_ids db)"
  shows "deletes_follow_acks (trace (drain_after env db n)) \<and>
    (\<forall>e \<in> set (db_getAll ''pending'' db).
       e \<notin> set (db_getAll ''pending'' (queue (drain_after env db n))) \<longrightarrow>
       (\<exists>r. ok r \<and> Fetched e (scan_call e) (Responded r) \<in> set (trace (drain_after env db n)))) \<and>
    (\<forall>k < length (db_getAll ''pending'' db).
       acknowledged env k (db_getAll ''pending'' db ! k) \<and> delete_rejects env k \<longrightarrow>
       db_getAll ''pending'' db ! k \<in> set (db_getAll ''pending'' (queue (syncScans env db))) \<and>
       db_getAll ''pending'' db ! k \<in> set (attempted (trace (syncScans env' (queue (syncScans env db))))))"
proof (intro conjI ballI allI impI)
  show "deletes_follow_acks (trace (drain_after env db n))"
    by (simp add: drain_after_def deletes_follow_acks_drain deletes_follow_acks_Nil)
next
  fix e
  let ?P = "db_getAll ''pending'' db"
  assume e: "e \<in> set ?P" and gone: "e \<notin> set (db_getAll ''pending'' (queue (drain_after env db n)))"
  from gone have "e \<notin> set (kept env 0 (take n ?P))" and "e \<notin> set (drop n ?P)"
    using assms by (simp_all add: drain_after_pending)
  moreover from e have "e \<in> set (take n ?P) \<union> set (drop n ?P)"
    by (metis append_take_drop_id set_append)
  ultimately obtain i where i: "(i, e) \<in> set (enumerate 0 (take n ?P))" and "removed env i e"
    using not_kept_removed [of e "take n ?P" env 0] by auto
  then obtain r where "ok r" and "Fetched e (scan_call e) (Responded r) \<in> set (scan_events env i e)"
    using removed_fetched by blast
  with i show "\<exists>r. ok r \<and> Fetched e (scan_call e) (Responded r) \<in> set (trace (drain_after env db n))"
    unfolding drain_after_def by (blast intro: drain_trace_member)
next
  fix k
  let ?P = "db_getAll ''pending'' db"
  assume k: "k < length ?P" and fails: "acknowledged env k (?P ! k) \<and> delete_rejects env k"
  then have "\<not> removed env (0 + k) (?P ! k)"
    by (simp add: removed_def)
  with k have "?P ! k \<in> set (kept env 0 ?P)"
    by (rule kept_member)
  then show stays: "?P ! k \<in> set (db_getAll ''pending'' (queue (syncScans env db)))"
    using assms by (simp add: syncScans_pending)
  have "attempted (trace (syncScans env' (queue (syncScans env db)))) =
      db_getAll ''pending'' (queue (syncScans env db))"
    by (simp add: syncScans_def drain_attempted)
  with stays show "?P ! k \<in> set (attempted (trace (syncScans env' (queue (syncScans env db)))))"
    by simp
qed

theorem delete_only_after_ack_witness:
  "distinct (pending_ids three_pending) \<and>
   deletes_follow_acks (trace (drain_after first_delete_fails three_pending 2)) \<and>
   entry2 \<in> set (db_getAll ''pending'' three_pending) \<and>
   entry2 \<notin> set (db_getAll ''pending'' (queue (drain_after first_delete_fails three_pending 2))) \<and>
   (\<exists>r. ok r \<and> Fetched entry2 (scan_call entry2) (Responded r)
            \<in> set (trace (drain_after first_delete_fails three_pending 2))) \<and>
   acknowledged first_delete_fails 0 entry1 \<and> delete_rejects first_delete_fails 0 \<and>
   entry1 \<in> set (db_getAll ''pending'' (queue (syncScans first_delete_fails three_pending))) \<and>
   entry1 \<in> set (attempted (trace (syncScans first_fails (queue (syncScans first_delete_fails three_pending)))))"
proof -
  note inst = delete_only_after_ack [OF three_pending_distinct, of first_delete_fails 2 first_fails]
  have in2: "entry2 \<in> set (db_getAll ''pending'' three_pending)"
    by (simp add: three_pending_entries)
  have gone: "entry2 \<notin> set (db_getAll ''pending'' (queue (drain_after first_delete_fails three_pending 2)))"
    by (simp add: drain_after_pending three_pending_distinct three_pending_entries kept_def removed_def
        acknowledged_def first_delete_fails_def ok_def numeral_2_eq_2)
      (simp add: entry1_def entry2_def entry3_def)
  have k0: "0 < length (db_getAll ''pending'' three_pending)"
    and at0: "db_getAll ''pending'' three_pending ! 0 = entry1"
    by (simp_all add: three_pending_entries)
  have failing: "acknowledged first_delete_fails 0 entry1 \<and> delete_rejects first_delete_fails 0"
    by (simp add: acknowledged_def first_delete_fails_def ok_def)
  from inst in2 gone have acked: "\<exists>r. ok r \<and> Fetched entry2 (scan_call entry2) (Responded r)
            \<in> set (trace (drain_after first_delete_fails three_pending 2))"
    by blast
  from inst k0 failing have "db_getAll ''pending'' three_pending ! 0 \<in>
        set (db_getAll ''pending'' (queue (syncScans first_delete_fails three_pending))) \<and>
      db_getAll ''pending'' three_pending ! 0 \<in>
        set (attempted (trace (syncScans first_fails (queue (syncScans first_delete_fails three_pending)))))"
    unfolding at0 [symmetric] by blast
  then have retried: "entry1 \<in> set (db_getAll ''pending'' (queue (syncScans first_delete_fails three_pending))) \<and>
      entry1 \<in> set (attempted (trace (syncScans first_fails (queue (syncScans first_delete_fails three_pending)))))"
    by (simp only: at0)
  from inst have "deletes_follow_acks (trace (drain_after first_delete_fails three_pending 2))"
    by blast
  with three_pending_distinct in2 gone acked failing retried show ?thesis
    by blast
qed

lemma syncScans_calls:
  "calls (trace (syncScans env db)) = map scan_call (db_getAll ''pending'' db)"
  by (simp add: syncScans_def drain_calls)

lemma syncScans_attempted: "attempted (trace (syncScans env db)) = db_getAll ''pending'' db"
  by (simp add: syncScans_def drain_attempted)

text \<open>
  Claim C6, as stated, fails: the method of the resubmission is the literal \<^verbatim>\<open>'POST'\<close>
  of the loop body, not a field of the entry. An entry that stores the method
  \<^verbatim>\<open>PUT\<close> is resubmitted with \<^verbatim>\<open>POST\<close>.
\<close>

theorem replay_method_counterexample:
  "db_getAll ''pending'' put_pending = [put_entry] \<and>
   js_get put_entry ''method'' = Str ''PUT'' \<and>
   map init_method (calls (trace (syncScans first_fails put_pending))) = [''POST''] \<and>
   map (\<lambda>c. Str (init_method c)) (calls (trace (syncScans first_fails put_pending))) \<noteq>
     map (\<lambda>scan. js_get scan ''method'') (db_getAll ''pending'' put_pending)"
  by (simp add: syncScans_calls db_getAll_def put_pending_def scan_call_def put_entry_def js_get_def)

text \<open>
  Claim C6, amended. For every pending entry, in order, the drain issues one request whose
  URL, headers and body are the entry's own \<^verbatim>\<open>url\<close>, \<^verbatim>\<open>headers\<close> and \<^verbatim>\<open>body\<close>, and whose
  method is always \<^verbatim>\<open>POST\<close>.
\<close>

theorem replay_always_posts:
  "map resource (calls (trace (syncScans env db))) =
     map (\<lambda>scan. js_get scan ''url'') (db_getAll ''pending'' db) \<and>
   map init_headers (calls (trace (syncScans env db))) =
     map (\<lambda>scan. js_get scan ''headers'') (db_getAll ''pending'' db) \<and>
   map init_body (calls (trace (syncScans env db))) =
     map (\<lambda>scan. js_get scan ''body'') (db_getAll ''pending'' db) \<and>
   map init_method (calls (trace (syncScans env db))) =
     replicate (length (db_getAll ''pending'' db)) ''POST'' \<and>
   attempted (trace (syncScans env db)) = db_getAll ''pending'' db"
  by (simp add: syncScans_calls syncScans_attempted scan_call_def comp_def map_replicate_const)

theorem replay_always_posts_witness:
  "map resource (calls (trace (syncScans first_fails put_pending))) = [Str ''/api/v1/scan''] \<and>
   map init_body (calls (trace (syncScans first_fails put_pending))) = [Str ''card''] \<and>
   map init_method (calls (trace (syncScans first_fails put_pending))) = [''POST'']"
  using replay_always_posts [of first_fails put_pending]
  by (simp add: db_getAll_def put_pending_def put_entry_def js_get_def)

lemma db_add_pending:
  "db_getAll ''pending'' (db_add ''pending'' entry db) =
     db_getAll ''pending'' db @ [(''id'', Num (next_id db)) # entry]"
  by (simp add: db_getAll_def db_add_def)

lemma db_add_others:
  "p \<noteq> ''pending'' \<Longrightarrow> db_getAll p (db_add ''pending'' entry db) = db_getAll p db"
  by (simp add: db_getAll_def db_add_def)

lemma unique_ids_add:
  assumes "unique_ids db"
  shows "unique_ids (db_add ''pending'' entry db)"
proof -
  have new: "js_get ((''id'', Num (next_id db)) # entry) ''id'' = Num (next_id db)"
    by (simp add: js_get_def)
  have old: "list_all (\<lambda>i. case i of Num n \<Rightarrow> n < next_id db | _ \<Rightarrow> False) (pending_ids db)"
    using assms by (simp add: unique_ids_def)
  then have fresh: "Num (next_id db) \<notin> set (pending_ids db)"
    by (auto simp: list_all_iff)
  have nid: "next_id (db_add ''pending'' entry db) = next_id db + 1"
    by (simp add: db_add_def)
  have older: "list_all (\<lambda>i. case i of Num n \<Rightarrow> n < next_id (db_add ''pending'' entry db) | _ \<Rightarrow> False)
      (pending_ids db)"
    using old by (auto simp: list_all_iff nid split: js_value.splits)
  have ids: "pending_ids (db_add ''pending'' entry db) = pending_ids db @ [Num (next_id db)]"
    by (simp add: pending_ids_def db_add_pending new)
  have "distinct (pending_ids db)"
    using assms by (simp add: unique_ids_def)
  then show ?thesis
    using fresh older by (simp add: unique_ids_def ids nid)
qed

lemma empty_db_start: "db_getAll p empty_db = []" "next_id empty_db = 1"
  by (simp_all add: db_getAll_def empty_db_def)

lemma scan_data_fields:
  "js_get scan_data ''url'' = Str ''/api/v1/scan''"
  "js_get scan_data ''headers'' = HeaderMap [(''Authorization'', ''Bearer t'')]"
  "js_get scan_data ''body'' = Str ''card''"
  "js_get scan_data ''method'' = Str ''PUT''"
  by (simp_all add: scan_data_def js_get_def)

text \<open>
  Claim C7, as stated, fails: the record \<^verbatim>\<open>saveForOffline\<close> persists has no
  \<^verbatim>\<open>method\<close> field, also when the scan data has one.
\<close>

theorem queue_record_shape_counterexample:
  "db_getAll ''pending'' (db_after (saveForOffline widget_with_sync False 1700 scan_data empty_db)) =
     [[(''id'', Num 1), (''url'', Str ''/api/v1/scan''),
       (''headers'', HeaderMap [(''Authorization'', ''Bearer t'')]), (''body'', Str ''card''),
       (''timestamp'', Num 1700)]] \<and>
   js_get scan_data ''method'' = Str ''PUT'' \<and>
   list_all (\<lambda>e. ''method'' \<notin> set (map fst e))
     (db_getAll ''pending'' (db_after (saveForOffline widget_with_sync False 1700 scan_data empty_db)))"
  by (simp add: saveForOffline_def db_add_pending empty_db_start scan_data_fields)

text \<open>
  Claim C7, amended. The record \<^verbatim>\<open>saveForOffline\<close> persists has the fields \<^verbatim>\<open>id\<close>,
  \<^verbatim>\<open>url\<close>, \<^verbatim>\<open>headers\<close>, \<^verbatim>\<open>body\<close> and \<^verbatim>\<open>timestamp\<close> and no other: the id is the
  one the store assigns, \<^verbatim>\<open>url\<close>, \<^verbatim>\<open>headers\<close> and \<^verbatim>\<open>body\<close> are copied from the scan
  data, the timestamp is the integer \<^verbatim>\<open>Date.now()\<close> gave. A store whose records all
  have this shape keeps it, and a store with unique ids keeps them unique: the new id is
  not the id of any record already there.
\<close>

theorem queue_record_shape:
  "db_getAll ''pending'' (db_after (saveForOffline w False now scanData db)) =
     db_getAll ''pending'' db @
       [[(''id'', Num (next_id db)), (''url'', js_get scanData ''url''),
         (''headers'', js_get scanData ''headers''), (''body'', js_get scanData ''body''),
         (''timestamp'', Num now)]] \<and>
   (list_all pending_shape (db_getAll ''pending'' db) \<longrightarrow>
      list_all pending_shape (db_getAll ''pending'' (db_after (saveForOffline w onLine now scanData db)))) \<and>
   (unique_ids db \<longrightarrow>
      unique_ids (db_after (saveForOffline w onLine now scanData db)) \<and>
      Num (next_id db) \<notin> set (pending_ids db))"
proof (intro conjI impI)
  show "db_getAll ''pending'' (db_after (saveForOffline w False now scanData db)) =
     db_getAll ''pending'' db @
       [[(''id'', Num (next_id db)), (''url'', js_get scanData ''url''),
         (''headers'', js_get scanData ''headers''), (''body'', js_get scanData ''body''),
         (''timestamp'', Num now)]]"
    by (simp add: saveForOffline_def db_add_pending)
  show "list_all pending_shape (db_getAll ''pending'' (db_after (saveForOffline w onLine now scanData db)))"
    if "list_all pending_shape (db_getAll ''pending'' db)"
    using that by (simp add: saveForOffline_def db_add_pending pending_shape_def js_get_def is_num_def)
  show "unique_ids (db_after (saveForOffline w onLine now scanData db))" if "unique_ids db"
    using that by (simp add: saveForOffline_def unique_ids_add)
  show "Num (next_id db) \<notin> set (pending_ids db)" if "unique_ids db"
    using that by (auto simp: unique_ids_def list_all_iff)
qed

lemma empty_db_unique: "unique_ids empty_db"
  by (simp add: unique_ids_def pending_ids_def db_getAll_def empty_db_def)

theorem queue_record_shape_witness:
  "list_all pending_shape (db_getAll ''pending'' empty_db) \<and>
   unique_ids empty_db \<and>
   list_all pending_shape
     (db_getAll ''pending'' (db_after (saveForOffline widget_with_sync False 1700 scan_data empty_db))) \<and>
   unique_ids (db_after (saveForOffline widget_with_sync False 1700 scan_data empty_db)) \<and>
   db_getAll ''pending'' (db_after (saveForOffline widget_with_sync False 1700 scan_data empty_db)) =
     [[(''id'', Num 1), (''url'', Str ''/api/v1/scan''),
       (''headers'', HeaderMap [(''Authorization'', ''Bearer t'')]), (''body'', Str ''card''),
       (''timestamp'', Num 1700)]]"
proof -
  have shaped: "list_all pending_shape (db_getAll ''pending'' empty_db)"
    by (simp add: empty_db_start)
  note inst = queue_record_shape [of widget_with_sync 1700 scan_data empty_db False,
      unfolded empty_db_start scan_data_fields append_Nil]
  have none: "list_all pending_shape []"
    by simp
  from inst none shaped empty_db_unique show ?thesis
    by blast
qed

text \<open>
  Claim C10, as stated, fails: without a sync registration (\<^verbatim>\<open>this.syncRegistration\<close> is
  not set) \<^verbatim>\<open>saveForOffline\<close> appends the record and returns true, but registers no sync.
\<close>

theorem save_registers_sync_counterexample:
  "returned (saveForOffline widget_without_sync False 1700 scan_data empty_db) \<and>
   length (db_getAll ''pending'' (db_after (saveForOffline widget_without_sync False 1700 scan_data empty_db))) = 1 \<and>
   sync_registered (saveForOffline widget_without_sync False 1700 scan_data empty_db) = []"
  by (simp add: saveForOffline_def widget_without_sync_def db_add_pending empty_db_start)

text \<open>
  Claim C10, amended. When \<^verbatim>\<open>navigator.onLine\<close> is true, \<^verbatim>\<open>saveForOffline\<close> returns false,
  leaves the store unchanged and registers nothing. When it is false, it returns true and
  appends exactly one record, built from the scan data, to the pending entries (no other
  partition changes); it registers the tag \<^verbatim>\<open>sync-scans\<close> when the widget has a sync
  registration, and registers nothing when it has none.
\<close>

theorem save_only_while_offline:
  "(onLine \<longrightarrow>
      saveForOffline w onLine now scanData db =
        \<lparr>returned = False, db_after = db, sync_registered = []\<rparr>) \<and>
   (\<not> onLine \<longrightarrow>
      returned (saveForOffline w onLine now scanData db) \<and>
      db_getAll ''pending'' (db_after (saveForOffline w onLine now scanData db)) =
        db_getAll ''pending'' db @
          [[(''id'', Num (next_id db)), (''url'', js_get scanData ''url''),
            (''headers'', js_get scanData ''headers''), (''body'', js_get scanData ''body''),
            (''timestamp'', Num now)]] \<and>
      (\<forall>p. p \<noteq> ''pending'' \<longrightarrow>
         db_getAll p (db_after (saveForOffline w onLine now scanData db)) = db_getAll p db) \<and>
      sync_registered (saveForOffline w onLine now scanData db) =
        (if syncRegistration w then [''sync-scans''] else []))"
  by (simp add: saveForOffline_def db_add_pending db_add_others)

theorem save_only_while_offline_witness:
  "saveForOffline widget_with_sync True 1700 scan_data empty_db =
     \<lparr>returned = False, db_after = empty_db, sync_registered = []\<rparr> \<and>
   returned (saveForOffline widget_with_sync False 1700 scan_data empty_db) \<and>
   db_getAll ''pending'' (db_after (saveForOffline widget_with_sync False 1700 scan_data empty_db)) =
     [[(''id'', Num 1), (''url'', Str ''/api/v1/scan''),
       (''headers'', HeaderMap [(''Authorization'', ''Bearer t'')]), (''body'', Str ''card''),
       (''timestamp'', Num 1700)]] \<and>
   sync_registered (saveForOffline widget_with_sync False 1700 scan_data empty_db) = [''sync-scans'']"
proof -
  have sync: "syncRegistration widget_with_sync = True"
    by (simp add: widget_with_sync_def)
  note on = save_only_while_offline [of True widget_with_sync 1700 scan_data empty_db]
  note off = save_only_while_offline [of False widget_with_sync 1700 scan_data empty_db,
      unfolded empty_db_start scan_data_fields append_Nil sync if_True]
  from on off show ?thesis
    by blast
qed

end
